theory Spec2Isabelle
  imports Main "HOL-Library.Word" "HOL-Library.Sublist"
begin

unbundle bit_operations_syntax

section \<open>Consistent-hash ring (internal/hash/consistent.go)\<close>

text \<open>
  Go strings and byte slices are sequences of 8-bit values, as HOL's \<open>string\<close> is, so
  both are modelled by \<open>string\<close> and the conversions \<open>[]byte(s)\<close> and \<open>string(b)\<close> are the
  identity. \<open>crypto/md5\<close> is a library of the Go distribution, not code of the repository:
  the digest function \<open>md5.Sum\<close> is a parameter \<open>md5\<close> of every ring operation, and every
  theorem about the ring holds for every such function.
\<close>

type_synonym uint32 = "32 word"
type_synonym digest = "string \<Rightarrow> string"

record ConsistentHash =
  hashRing :: "uint32 list"
  nodes :: "uint32 \<rightharpoonup> string"
  virtualNodes :: int
  replicaFactor :: int

definition DefaultVirtualNodes :: int where
  "DefaultVirtualNodes = 150"

definition NewConsistentHash :: "int \<Rightarrow> int \<Rightarrow> ConsistentHash" where
  "NewConsistentHash vn rf =
     \<lparr> hashRing = [],
       nodes = Map.empty,
       virtualNodes = (if vn \<le> 0 then DefaultVirtualNodes else vn),
       replicaFactor = (if rf \<le> 0 then 2 else rf) \<rparr>"

text \<open>\<open>hashKey\<close>: the first four digest bytes, big-endian.\<close>

definition hashKey :: "digest \<Rightarrow> string \<Rightarrow> uint32" where
  "hashKey md5 key =
     (let hash = md5 key in
        push_bit 24 (of_char (hash ! 0)) OR push_bit 16 (of_char (hash ! 1)) OR
        push_bit 8 (of_char (hash ! 2)) OR of_char (hash ! 3))"

text \<open>\<open>fmt.Sprintf("%s#%d", nodeID, i)\<close> for a loop index \<open>i \<ge> 0\<close>.\<close>

fun itoa :: "nat \<Rightarrow> string" where
  "itoa n = (if n < 10 then [''0123456789'' ! n]
             else itoa (n div 10) @ [''0123456789'' ! (n mod 10)])"

declare itoa.simps [simp del]

definition virtualKey :: "string \<Rightarrow> nat \<Rightarrow> string" where
  "virtualKey nodeID i = nodeID @ ''#'' @ itoa i"

text \<open>
  \<open>sort.Search(n, f)\<close> of the Go standard library: binary search for the smallest index
  in \<open>[0, n)\<close> at which \<open>f\<close> holds, \<open>n\<close> if there is none; transcribed from its loop
  \<open>i, j := 0, n; for i < j { h := (i+j)/2; if !f(h) { i = h+1 } else { j = h } }\<close>.
\<close>

function Search_loop :: "(nat \<Rightarrow> bool) \<Rightarrow> nat \<Rightarrow> nat \<Rightarrow> nat" where
  "Search_loop f i j =
     (if i < j then
        (let h = (i + j) div 2 in
           if \<not> f h then Search_loop f (h + 1) j else Search_loop f i h)
      else i)"
  by pat_completeness auto
termination
  by (relation "measure (\<lambda>(f, i, j). j - i)") auto

declare Search_loop.simps [simp del]

definition Search :: "nat \<Rightarrow> (nat \<Rightarrow> bool) \<Rightarrow> nat" where
  "Search n f = Search_loop f 0 n"

text \<open>
  \<open>AddNode\<close>: one ring entry and one map entry per virtual node, then \<open>sort.Slice\<close> on the
  positions (the sorted list of a list of numbers does not depend on the sorting
  algorithm). The counting loops \<open>for i := 0; i < ch.virtualNodes; i++\<close> are folds over
  \<open>[0..<virtualNodes]\<close>: their bodies change neither \<open>i\<close> nor \<open>virtualNodes\<close>.
\<close>

definition AddNode_step :: "digest \<Rightarrow> string \<Rightarrow> ConsistentHash \<Rightarrow> nat \<Rightarrow> ConsistentHash" where
  "AddNode_step md5 nodeID ch i =
     (let hash = hashKey md5 (virtualKey nodeID i) in
        ch\<lparr> hashRing := hashRing ch @ [hash], nodes := (nodes ch)(hash \<mapsto> nodeID) \<rparr>)"

definition AddNode :: "digest \<Rightarrow> string \<Rightarrow> ConsistentHash \<Rightarrow> ConsistentHash" where
  "AddNode md5 nodeID ch =
     (let ch' = foldl (AddNode_step md5 nodeID) ch [0..<nat (virtualNodes ch)] in
        ch'\<lparr> hashRing := sort (hashRing ch') \<rparr>)"

definition RemoveNode_step :: "digest \<Rightarrow> string \<Rightarrow> ConsistentHash \<Rightarrow> nat \<Rightarrow> ConsistentHash" where
  "RemoveNode_step md5 nodeID ch i =
     (let hash = hashKey md5 (virtualKey nodeID i);
          ring = hashRing ch;
          idx = Search (length ring) (\<lambda>j. ring ! j \<ge> hash);
          ring' = (if idx < length ring \<and> ring ! idx = hash
                   then take idx ring @ drop (idx + 1) ring else ring)
      in ch\<lparr> hashRing := ring', nodes := (nodes ch)(hash := None) \<rparr>)"

definition RemoveNode :: "digest \<Rightarrow> string \<Rightarrow> ConsistentHash \<Rightarrow> ConsistentHash" where
  "RemoveNode md5 nodeID ch = foldl (RemoveNode_step md5 nodeID) ch [0..<nat (virtualNodes ch)]"

text \<open>\<open>search\<close>: the index of the first position \<open>\<ge> hash\<close>, wrapping to 0.\<close>

definition search :: "ConsistentHash \<Rightarrow> uint32 \<Rightarrow> nat" where
  "search ch hash =
     (let idx = Search (length (hashRing ch)) (\<lambda>i. hashRing ch ! i \<ge> hash)
      in if idx \<ge> length (hashRing ch) then 0 else idx)"

text \<open>
  A Go map lookup \<open>ch.nodes[k]\<close> of a missing key yields the zero value, the empty string.
\<close>

definition nodeAt :: "ConsistentHash \<Rightarrow> uint32 \<Rightarrow> string" where
  "nodeAt ch k = (case nodes ch k of Some nodeID \<Rightarrow> nodeID | None \<Rightarrow> '''')"

text \<open>
  The loop of \<open>GetNodes\<close>:
  \<open>for i := 0; len(nodes) < ch.replicaFactor && i < len(ch.hashRing); i++\<close>, with the
  set \<open>nodeSet\<close> (a \<open>map[string]bool\<close>, false where unset) and the result list \<open>nodes\<close>.
\<close>

function GetNodes_loop ::
  "ConsistentHash \<Rightarrow> nat \<Rightarrow> nat \<Rightarrow> (string \<Rightarrow> bool) \<Rightarrow> string list \<Rightarrow> string list" where
  "GetNodes_loop ch idx i nodeSet ns =
     (if int (length ns) < replicaFactor ch \<and> i < length (hashRing ch) then
        (let ringIdx = (idx + i) mod length (hashRing ch);
             nodeID = nodeAt ch (hashRing ch ! ringIdx)
         in if \<not> nodeSet nodeID
            then GetNodes_loop ch idx (i + 1) (nodeSet(nodeID := True)) (ns @ [nodeID])
            else GetNodes_loop ch idx (i + 1) nodeSet ns)
      else ns)"
  by pat_completeness auto
termination
  by (relation "measure (\<lambda>(ch, idx, i, nodeSet, ns). length (hashRing ch) - i)") auto

declare GetNodes_loop.simps [simp del]

definition GetNodes :: "digest \<Rightarrow> ConsistentHash \<Rightarrow> string \<Rightarrow> string list" where
  "GetNodes md5 ch key =
     (if length (hashRing ch) = 0 then []
      else (let hash = hashKey md5 key; idx = search ch hash
            in GetNodes_loop ch idx 0 (\<lambda>_. False) []))"

definition GetPrimaryNode :: "digest \<Rightarrow> ConsistentHash \<Rightarrow> string \<Rightarrow> string" where
  "GetPrimaryNode md5 ch key =
     (let ns = GetNodes md5 ch key in if length ns > 0 then ns ! 0 else '''')"

text \<open>
  \<open>GetAllNodes\<close>: the distinct values of the position map. Go iterates a map in no fixed
  order, so the result is modelled as a set.
\<close>

definition GetAllNodes :: "ConsistentHash \<Rightarrow> string set" where
  "GetAllNodes ch = ran (nodes ch)"

text \<open>A sequence of ring mutations, applied left to right.\<close>

datatype ring_op = OpAdd string | OpRemove string

fun apply_op :: "digest \<Rightarrow> ConsistentHash \<Rightarrow> ring_op \<Rightarrow> ConsistentHash" where
  "apply_op md5 ch (OpAdd n) = AddNode md5 n ch"
| "apply_op md5 ch (OpRemove n) = RemoveNode md5 n ch"

definition run_ops :: "digest \<Rightarrow> ring_op list \<Rightarrow> ConsistentHash \<Rightarrow> ConsistentHash" where
  "run_ops md5 ops ch = foldl (apply_op md5) ch ops"

section \<open>File system and storage node (internal/storage/node.go)\<close>

subsection \<open>Paths and the file system\<close>

text \<open>
  The packages \<open>os\<close> and \<open>path/filepath\<close> belong to the Go distribution. They are
  modelled by a file system without permissions, links or spontaneous I/O failures: an
  operation fails only for a reason visible in the tree (a missing entry, a file where
  a directory is needed, a directory where a file is needed, a directory that is not
  empty). A cleaned path is represented by the list of its components below the root
  directory; relative paths are resolved against the root directory.

  \<open>filepath.Join\<close> joins its non-empty elements with the separator and cleans the result:
  empty components and \<open>.\<close> are dropped and \<open>..\<close> removes the component before it (at
  the root it is dropped).

  The model departs from the operating system at degenerate paths: for a path through a
  regular file, \<open>os.RemoveAll\<close> and \<open>os.ReadFile\<close> report \<open>ENOTDIR\<close>, where \<open>RemoveAll\<close>
  below succeeds and \<open>ReadFile\<close> reports \<open>ENOENT\<close>; for the root or current directory,
  \<open>os.RemoveAll\<close> removes nothing, where \<open>RemoveAll\<close> below removes every entry and
  returns an error; and \<open>os.MkdirAll\<close> refuses the empty path and names that a file
  system cannot hold (a NUL byte, a component of more than 255 bytes), which \<open>MkdirAll\<close>
  below accepts.
\<close>

type_synonym path = "string list"

fun split_slash :: "string \<Rightarrow> string list" where
  "split_slash [] = [[]]"
| "split_slash (c # cs) =
     (if c = CHR ''/'' then [] # split_slash cs
      else (case split_slash cs of [] \<Rightarrow> [[c]] | w # ws \<Rightarrow> (c # w) # ws))"

definition clean_step :: "path \<Rightarrow> string \<Rightarrow> path" where
  "clean_step p c =
     (if c = '''' \<or> c = ''.'' then p else if c = ''..'' then butlast p else p @ [c])"

definition Join :: "path \<Rightarrow> string list \<Rightarrow> path" where
  "Join p elems = foldl clean_step p (concat (map split_slash elems))"

definition path_of :: "string \<Rightarrow> path" where
  "path_of s = Join [] [s]"

datatype entry = Dir | File string

type_synonym fs = "(path \<times> entry) list"

datatype os_error = ENOENT | ENOTDIR | EISDIR | ENOTEMPTY | EBUSY

text \<open>The root directory always exists.\<close>

definition lookup :: "fs \<Rightarrow> path \<Rightarrow> entry option" where
  "lookup t p = (if p = [] then Some Dir else map_of t p)"

definition put :: "fs \<Rightarrow> path \<Rightarrow> entry \<Rightarrow> fs" where
  "put t p e = (p, e) # filter (\<lambda>(q, _). q \<noteq> p) t"

definition children :: "fs \<Rightarrow> path \<Rightarrow> path list" where
  "children t p = filter (\<lambda>q. q \<noteq> [] \<and> butlast q = p) (map fst t)"

text \<open>
  \<open>os.MkdirAll\<close>: nothing is created and \<open>ENOTDIR\<close> is returned when the path or one of its
  ancestors is a file; otherwise every missing directory on the path is created.
\<close>

fun is_file :: "entry option \<Rightarrow> bool" where
  "is_file (Some (File _)) = True"
| "is_file _ = False"

definition MkdirAll :: "fs \<Rightarrow> path \<Rightarrow> os_error option \<times> fs" where
  "MkdirAll t p =
     (if \<exists>q \<in> set (prefixes p). is_file (lookup t q)
      then (Some ENOTDIR, t)
      else (None, foldl (\<lambda>t q. if lookup t q = None then put t q Dir else t) t (prefixes p)))"

text \<open>\<open>os.WriteFile\<close>: creates the file or replaces its content.\<close>

definition WriteFile :: "fs \<Rightarrow> path \<Rightarrow> string \<Rightarrow> os_error option \<times> fs" where
  "WriteFile t p data =
     (if p = [] then (Some EISDIR, t)
      else (case lookup t (butlast p) of
              None \<Rightarrow> (Some ENOENT, t)
            | Some (File _) \<Rightarrow> (Some ENOTDIR, t)
            | Some Dir \<Rightarrow>
                (case lookup t p of
                   Some Dir \<Rightarrow> (Some EISDIR, t)
                 | _ \<Rightarrow> (None, put t p (File data)))))"

definition ReadFile :: "fs \<Rightarrow> path \<Rightarrow> os_error + string" where
  "ReadFile t p =
     (case lookup t p of
        None \<Rightarrow> Inl ENOENT
      | Some Dir \<Rightarrow> Inl EISDIR
      | Some (File data) \<Rightarrow> Inr data)"

text \<open>
  \<open>os.RemoveAll\<close>: removes the path and everything below it; a path that does not exist
  is no error. The root directory itself cannot be removed.
\<close>

definition RemoveAll :: "fs \<Rightarrow> path \<Rightarrow> os_error option \<times> fs" where
  "RemoveAll t p =
     (let t' = filter (\<lambda>(q, _). \<not> prefix p q) t
      in if p = [] then (Some EBUSY, t') else (None, t'))"

text \<open>\<open>os.ReadDir\<close>: the names of the entries of a directory.\<close>

definition ReadDir :: "fs \<Rightarrow> path \<Rightarrow> os_error + string list" where
  "ReadDir t p =
     (case lookup t p of
        None \<Rightarrow> Inl ENOENT
      | Some (File _) \<Rightarrow> Inl ENOTDIR
      | Some Dir \<Rightarrow> Inr (map last (children t p)))"

text \<open>\<open>os.Remove\<close>: removes a file or an empty directory.\<close>

definition Remove :: "fs \<Rightarrow> path \<Rightarrow> os_error option \<times> fs" where
  "Remove t p =
     (if p = [] then (Some EBUSY, t)
      else (case lookup t p of
              None \<Rightarrow> (Some ENOENT, t)
            | Some (File _) \<Rightarrow> (None, filter (\<lambda>(q, _). q \<noteq> p) t)
            | Some Dir \<Rightarrow>
                (if children t p = [] then (None, filter (\<lambda>(q, _). q \<noteq> p) t)
                 else (Some ENOTEMPTY, t))))"

subsection \<open>Errors of the program\<close>

text \<open>
  One constructor per error the program creates or passes on: an error of the file
  system, the errors made with \<open>fmt.Errorf\<close> in the storage node and the file manager, and
  an error of the metadata store (an interface, its errors are opaque).
\<close>

datatype error =
    PathError os_error
  | ChecksumMismatch
  | NoStorageNodes
  | StoreFailedOnAllNodes
  | FileNotFound error
  | NoVersionsAvailable
  | VersionNotFound
  | RetrieveFailed "error option"
  | StoreError string

subsection \<open>The storage node\<close>

text \<open>
  \<open>crypto/sha256\<close> is a library: the digest \<open>sha256.Sum256\<close> is the parameter \<open>sha\<close>.
  \<open>hex.EncodeToString\<close> writes each byte as two lower-case hexadecimal digits. The lock
  \<open>mu\<close> of a node serialises its operations and is not modelled: every operation below is
  one atomic step.
\<close>

record Node =
  ID :: string
  StoragePath :: string

definition hex_byte :: "char \<Rightarrow> string" where
  "hex_byte c = [''0123456789abcdef'' ! (of_char c div 16), ''0123456789abcdef'' ! (of_char c mod 16)]"

definition EncodeToString :: "string \<Rightarrow> string" where
  "EncodeToString bs = concat (map hex_byte bs)"

definition calculateChecksum :: "digest \<Rightarrow> string \<Rightarrow> string" where
  "calculateChecksum sha data = EncodeToString (sha data)"

definition NewNode :: "string \<Rightarrow> string \<Rightarrow> fs \<Rightarrow> (error + Node) \<times> fs" where
  "NewNode nodeID storagePath t =
     (case MkdirAll t (path_of storagePath) of
        (Some e, t') \<Rightarrow> (Inl (PathError e), t')
      | (None, t') \<Rightarrow> (Inr \<lparr> ID = nodeID, StoragePath = storagePath \<rparr>, t'))"

definition versionPath :: "Node \<Rightarrow> string \<Rightarrow> string \<Rightarrow> path" where
  "versionPath n fileID versionID = Join [] [StoragePath n, fileID, versionID]"

definition StoreFile ::
  "digest \<Rightarrow> Node \<Rightarrow> string \<Rightarrow> string \<Rightarrow> string \<Rightarrow> fs \<Rightarrow> error option \<times> fs" where
  "StoreFile sha n fileID versionID data t =
     (case MkdirAll t (versionPath n fileID versionID) of
        (Some e, t1) \<Rightarrow> (Some (PathError e), t1)
      | (None, t1) \<Rightarrow>
          (let filePath = Join (versionPath n fileID versionID) [''data''] in
           case WriteFile t1 filePath data of
             (Some e, t2) \<Rightarrow> (Some (PathError e), t2)
           | (None, t2) \<Rightarrow>
               (let checksum = calculateChecksum sha data;
                    checksumPath = Join (versionPath n fileID versionID) [''checksum''] in
                case WriteFile t2 checksumPath checksum of
                  (Some e, t3) \<Rightarrow> (Some (PathError e), t3)
                | (None, t3) \<Rightarrow> (None, t3))))"

definition RetrieveFile :: "digest \<Rightarrow> Node \<Rightarrow> string \<Rightarrow> string \<Rightarrow> fs \<Rightarrow> error + string" where
  "RetrieveFile sha n fileID versionID t =
     (let filePath = Join (versionPath n fileID versionID) [''data''] in
      case ReadFile t filePath of
        Inl e \<Rightarrow> Inl (PathError e)
      | Inr data \<Rightarrow>
          (let checksumPath = Join (versionPath n fileID versionID) [''checksum''] in
           case ReadFile t checksumPath of
             Inl e \<Rightarrow> Inl (PathError e)
           | Inr storedChecksum \<Rightarrow>
               (let calculatedChecksum = calculateChecksum sha data in
                if calculatedChecksum \<noteq> storedChecksum then Inl ChecksumMismatch
                else Inr data)))"

definition DeleteFile :: "Node \<Rightarrow> string \<Rightarrow> string \<Rightarrow> fs \<Rightarrow> error option \<times> fs" where
  "DeleteFile n fileID versionID t =
     (case RemoveAll t (versionPath n fileID versionID) of
        (Some e, t1) \<Rightarrow> (Some (PathError e), t1)
      | (None, t1) \<Rightarrow>
          (let filePath = Join [] [StoragePath n, fileID] in
           case ReadDir t1 filePath of
             Inl e \<Rightarrow> (Some (PathError e), t1)
           | Inr entries \<Rightarrow>
               (if length entries = 0 then
                  (case Remove t1 filePath of
                     (Some e, t2) \<Rightarrow> (Some (PathError e), t2)
                   | (None, t2) \<Rightarrow> (None, t2))
                else (None, t1))))"

definition DeleteAllVersions :: "Node \<Rightarrow> string \<Rightarrow> fs \<Rightarrow> error option \<times> fs" where
  "DeleteAllVersions n fileID t =
     (case RemoveAll t (Join [] [StoragePath n, fileID]) of
        (Some e, t1) \<Rightarrow> (Some (PathError e), t1)
      | (None, t1) \<Rightarrow> (None, t1))"

definition FileExists :: "Node \<Rightarrow> string \<Rightarrow> string \<Rightarrow> fs \<Rightarrow> bool" where
  "FileExists n fileID versionID t =
     (lookup t (Join (versionPath n fileID versionID) [''data'']) \<noteq> None)"

section \<open>Metadata records and the file manager (internal/metadata, internal/manager)\<close>

text \<open>Times (\<open>time.Time\<close>) are natural numbers; the database key \<open>ID\<close> is left out.\<close>

record Version =
  VersionID :: string
  vSize :: int
  Nodes :: "string list"
  vCreatedAt :: nat

record FileMetadata =
  FileID :: string
  Filename :: string
  Size :: int
  ContentType :: string
  Versions :: "Version list"
  Replicas :: "string list"
  CreatedAt :: nat
  UpdatedAt :: nat

text \<open>
  \<open>metadata.Store\<close> is an interface: the file manager works with any implementation. A
  store is modelled by its state, of a type \<open>'m\<close>, and the operations the claims involve.
  \<open>SaveMetadata\<close> receives a pointer to the record and may change it (the store of the
  tests sets \<open>UpdatedAt\<close>), so it also returns the record.
\<close>

record 'm Store =
  SaveMetadata :: "'m \<Rightarrow> FileMetadata \<Rightarrow> error option \<times> FileMetadata \<times> 'm"
  GetMetadata :: "'m \<Rightarrow> string \<Rightarrow> error + FileMetadata"
  DeleteMetadata :: "'m \<Rightarrow> string \<Rightarrow> error option \<times> 'm"

text \<open>
  The file manager: the registry of nodes, the ring and the replica factor. Its fourth
  field, the metadata store, is the parameter \<open>store\<close> of the operations together with
  the store's state.
\<close>

record FileManager =
  fm_nodes :: "string \<rightharpoonup> Node"
  fm_hashRing :: ConsistentHash
  fm_replicaFactor :: int

definition NewFileManager :: "int \<Rightarrow> FileManager" where
  "NewFileManager rf =
     \<lparr> fm_nodes = Map.empty, fm_hashRing = NewConsistentHash 150 rf, fm_replicaFactor = rf \<rparr>"

definition RegisterNode ::
  "digest \<Rightarrow> string \<Rightarrow> string \<Rightarrow> FileManager \<Rightarrow> fs \<Rightarrow> error option \<times> FileManager \<times> fs" where
  "RegisterNode md5 nodeID storagePath fm t =
     (case NewNode nodeID storagePath t of
        (Inl err, t') \<Rightarrow> (Some err, fm, t')
      | (Inr node, t') \<Rightarrow>
          (None,
           fm\<lparr> fm_nodes := (fm_nodes fm)(nodeID \<mapsto> node),
               fm_hashRing := AddNode md5 nodeID (fm_hashRing fm) \<rparr>,
           t'))"

definition UnregisterNode :: "digest \<Rightarrow> string \<Rightarrow> FileManager \<Rightarrow> FileManager" where
  "UnregisterNode md5 nodeID fm =
     fm\<lparr> fm_nodes := (fm_nodes fm)(nodeID := None),
         fm_hashRing := RemoveNode md5 nodeID (fm_hashRing fm) \<rparr>"

text \<open>
  The store loop of \<open>UploadFile\<close>: a node missing from the registry is skipped, a failed
  store is logged (the log is not modelled) and skipped, a successful one is recorded.
\<close>

fun store_loop ::
  "digest \<Rightarrow> FileManager \<Rightarrow> string \<Rightarrow> string \<Rightarrow> string \<Rightarrow> string list \<Rightarrow> string list \<Rightarrow> fs
   \<Rightarrow> string list \<times> fs" where
  "store_loop sha fm fileID versionID data [] storedNodes t = (storedNodes, t)"
| "store_loop sha fm fileID versionID data (nodeID # rest) storedNodes t =
     (case fm_nodes fm nodeID of
        None \<Rightarrow> store_loop sha fm fileID versionID data rest storedNodes t
      | Some node \<Rightarrow>
          (case StoreFile sha node fileID versionID data t of
             (Some err, t') \<Rightarrow> store_loop sha fm fileID versionID data rest storedNodes t'
           | (None, t') \<Rightarrow>
               store_loop sha fm fileID versionID data rest (storedNodes @ [nodeID]) t'))"

fun cleanupFailedUpload :: "FileManager \<Rightarrow> string \<Rightarrow> string \<Rightarrow> string list \<Rightarrow> fs \<Rightarrow> fs" where
  "cleanupFailedUpload fm fileID versionID [] t = t"
| "cleanupFailedUpload fm fileID versionID (nodeID # rest) t =
     (case fm_nodes fm nodeID of
        None \<Rightarrow> cleanupFailedUpload fm fileID versionID rest t
      | Some node \<Rightarrow>
          cleanupFailedUpload fm fileID versionID rest (snd (DeleteFile node fileID versionID t)))"

text \<open>
  \<open>UploadFile\<close>; \<open>newFileMetadata\<close> is the record it builds. The two fresh identifiers (\<open>uuid.New().String()\<close>) and the three readings
  of the clock (\<open>time.Now()\<close>) are inputs. The result is the error or the record, with the
  file system and the state of the metadata store after the call.
\<close>

definition newFileMetadata ::
  "string \<Rightarrow> string \<Rightarrow> string \<Rightarrow> string \<Rightarrow> string \<Rightarrow> string list \<Rightarrow> nat \<Rightarrow> nat \<Rightarrow> nat
   \<Rightarrow> FileMetadata" where
  "newFileMetadata fileID versionID filename data contentType storedNodes now1 now2 now3 =
     \<lparr> FileID = fileID, Filename = filename, Size = int (length data),
       ContentType = contentType,
       Versions = [\<lparr> VersionID = versionID, vSize = int (length data),
                     Nodes = storedNodes, vCreatedAt = now1 \<rparr>],
       Replicas = storedNodes, CreatedAt = now2, UpdatedAt = now3 \<rparr>"

definition UploadFile ::
  "digest \<Rightarrow> digest \<Rightarrow> 'm Store \<Rightarrow> FileManager \<Rightarrow> string \<Rightarrow> string \<Rightarrow> nat \<Rightarrow> nat \<Rightarrow> nat \<Rightarrow>
   string \<Rightarrow> string \<Rightarrow> string \<Rightarrow> fs \<Rightarrow> 'm \<Rightarrow> (error + FileMetadata) \<times> fs \<times> 'm" where
  "UploadFile md5 sha store fm fileID versionID now1 now2 now3 filename data contentType t m =
     (let nodeIDs = GetNodes md5 (fm_hashRing fm) fileID in
      if length nodeIDs = 0 then (Inl NoStorageNodes, t, m)
      else
        (case store_loop sha fm fileID versionID data nodeIDs [] t of
           (storedNodes, t1) \<Rightarrow>
             if length storedNodes = 0 then (Inl StoreFailedOnAllNodes, t1, m)
             else
               (let fileMetadata =
                      newFileMetadata fileID versionID filename data contentType storedNodes
                        now1 now2 now3
                in case SaveMetadata store m fileMetadata of
                     (Some err, fileMetadata', m') \<Rightarrow>
                       (Inl err, cleanupFailedUpload fm fileID versionID storedNodes t1, m')
                   | (None, fileMetadata', m') \<Rightarrow> (Inr fileMetadata', t1, m'))))"

text \<open>
  \<open>DownloadFile\<close>: the search for the version (the first match wins) and the loop over the
  nodes recorded for it, which carries the last error (\<open>nil\<close> at first).
\<close>

fun find_version :: "Version list \<Rightarrow> string \<Rightarrow> Version option" where
  "find_version [] versionID = None"
| "find_version (v # vs) versionID =
     (if VersionID v = versionID then Some v else find_version vs versionID)"

fun retrieve_loop ::
  "digest \<Rightarrow> FileManager \<Rightarrow> string \<Rightarrow> string \<Rightarrow> string list \<Rightarrow> error option \<Rightarrow> fs
   \<Rightarrow> error option + string" where
  "retrieve_loop sha fm fileID versionID [] lastErr t = Inl lastErr"
| "retrieve_loop sha fm fileID versionID (nodeID # rest) lastErr t =
     (case fm_nodes fm nodeID of
        None \<Rightarrow> retrieve_loop sha fm fileID versionID rest lastErr t
      | Some node \<Rightarrow>
          (case RetrieveFile sha node fileID versionID t of
             Inr data \<Rightarrow> Inr data
           | Inl err \<Rightarrow> retrieve_loop sha fm fileID versionID rest (Some err) t))"

definition DownloadFile ::
  "digest \<Rightarrow> 'm Store \<Rightarrow> FileManager \<Rightarrow> string \<Rightarrow> string \<Rightarrow> fs \<Rightarrow> 'm
   \<Rightarrow> error + (string \<times> FileMetadata)" where
  "DownloadFile sha store fm fileID versionID t m =
     (case GetMetadata store m fileID of
        Inl err \<Rightarrow> Inl (FileNotFound err)
      | Inr fileMeta \<Rightarrow>
          (case (if versionID = ''''
                 then (if length (Versions fileMeta) = 0 then Inl NoVersionsAvailable
                       else Inr (Versions fileMeta ! (length (Versions fileMeta) - 1)))
                 else (case find_version (Versions fileMeta) versionID of
                         None \<Rightarrow> Inl VersionNotFound
                       | Some v \<Rightarrow> Inr v)) of
             Inl err \<Rightarrow> Inl err
           | Inr targetVersion \<Rightarrow>
               (case retrieve_loop sha fm fileID (VersionID targetVersion)
                       (Nodes targetVersion) None t of
                  Inr data \<Rightarrow> Inr (data, fileMeta)
                | Inl lastErr \<Rightarrow> Inl (RetrieveFailed lastErr))))"

text \<open>\<open>DeleteFile\<close> of the file manager, named apart from the node's \<open>DeleteFile\<close>.\<close>

fun delete_loop :: "FileManager \<Rightarrow> string \<Rightarrow> string list \<Rightarrow> fs \<Rightarrow> fs" where
  "delete_loop fm fileID [] t = t"
| "delete_loop fm fileID (nodeID # rest) t =
     (case fm_nodes fm nodeID of
        None \<Rightarrow> delete_loop fm fileID rest t
      | Some node \<Rightarrow> delete_loop fm fileID rest (snd (DeleteAllVersions node fileID t)))"

definition DeleteFile_fm ::
  "'m Store \<Rightarrow> FileManager \<Rightarrow> string \<Rightarrow> fs \<Rightarrow> 'm \<Rightarrow> error option \<times> fs \<times> 'm" where
  "DeleteFile_fm store fm fileID t m =
     (case GetMetadata store m fileID of
        Inl err \<Rightarrow> (Some (FileNotFound err), t, m)
      | Inr fileMeta \<Rightarrow>
          (let t' = delete_loop fm fileID (Replicas fileMeta) t in
           case DeleteMetadata store m fileID of (err, m') \<Rightarrow> (err, t', m')))"

definition GetNodeCount :: "FileManager \<Rightarrow> nat" where
  "GetNodeCount fm = card (dom (fm_nodes fm))"

section \<open>Notions used in the statements and proofs about the ring\<close>

definition seen :: "ConsistentHash \<Rightarrow> nat \<Rightarrow> nat \<Rightarrow> string set" where
  "seen ch idx i = (\<lambda>j. nodeAt ch (hashRing ch ! ((idx + j) mod length (hashRing ch)))) ` {..<i}"

definition vpos :: "digest \<Rightarrow> int \<Rightarrow> string \<Rightarrow> uint32 set" where
  "vpos md5 vn n = (\<lambda>i. hashKey md5 (virtualKey n i)) ` {..<nat vn}"

definition owner_inv :: "digest \<Rightarrow> ConsistentHash \<Rightarrow> bool" where
  "owner_inv md5 ch \<longleftrightarrow> (\<forall>p n. nodes ch p = Some n \<longrightarrow> p \<in> vpos md5 (virtualNodes ch) n)"

fun op_node :: "ring_op \<Rightarrow> string" where
  "op_node (OpAdd n) = n"
| "op_node (OpRemove n) = n"

fun present :: "string set \<Rightarrow> ring_op list \<Rightarrow> string set" where
  "present S [] = S"
| "present S (OpAdd n # ops) = present (insert n S) ops"
| "present S (OpRemove n # ops) = present (S - {n}) ops"

fun fresh_adds :: "string set \<Rightarrow> ring_op list \<Rightarrow> bool" where
  "fresh_adds S [] = True"
| "fresh_adds S (OpAdd n # ops) = (n \<notin> S \<and> fresh_adds (insert n S) ops)"
| "fresh_adds S (OpRemove n # ops) = fresh_adds (S - {n}) ops"

definition collision_free :: "digest \<Rightarrow> int \<Rightarrow> string set \<Rightarrow> bool" where
  "collision_free md5 vn U \<longleftrightarrow>
     inj_on (\<lambda>(n, i). hashKey md5 (virtualKey n i)) (U \<times> {..<nat vn})"

definition ring_inv :: "digest \<Rightarrow> ConsistentHash \<Rightarrow> string set \<Rightarrow> bool" where
  "ring_inv md5 ch S \<longleftrightarrow>
     sorted (hashRing ch) \<and> distinct (hashRing ch) \<and>
     set (hashRing ch) = (\<Union>n\<in>S. vpos md5 (virtualNodes ch) n) \<and>
     dom (nodes ch) = set (hashRing ch) \<and>
     (\<forall>n\<in>S. \<forall>p\<in>vpos md5 (virtualNodes ch) n. nodes ch p = Some n)"

text \<open>
  A sample digest function for concrete runs: the last bytes of the key, reversed and
  padded to 16 bytes. The general theorems hold for every digest function; the concrete
  runs below use this one.
\<close>

definition demo_md5 :: digest where
  "demo_md5 key = take 16 (rev key @ replicate 16 (CHR 0x00))"

section \<open>Notions used in the statements and proofs about the storage node\<close>

definition dataFile :: "Node \<Rightarrow> string \<Rightarrow> string \<Rightarrow> path" where
  "dataFile n fileID versionID = Join (versionPath n fileID versionID) [''data'']"

definition checksumFile :: "Node \<Rightarrow> string \<Rightarrow> string \<Rightarrow> path" where
  "checksumFile n fileID versionID = Join (versionPath n fileID versionID) [''checksum'']"

definition plain :: "string \<Rightarrow> bool" where
  "plain c \<longleftrightarrow> c \<noteq> '''' \<and> c \<noteq> ''.'' \<and> c \<noteq> ''..'' \<and> CHR ''/'' \<notin> set c"

definition fileDir :: "Node \<Rightarrow> string \<Rightarrow> path" where
  "fileDir n fileID = Join [] [StoragePath n, fileID]"

definition delete_versions :: "Node \<Rightarrow> string \<Rightarrow> string list \<Rightarrow> fs \<Rightarrow> fs" where
  "delete_versions n fileID vs t = foldl (\<lambda>t v. snd (DeleteFile n fileID v t)) t vs"

definition only_versions :: "Node \<Rightarrow> string \<Rightarrow> string list \<Rightarrow> fs \<Rightarrow> bool" where
  "only_versions n fileID vs t \<longleftrightarrow>
     (\<forall>q \<in> set (map fst t). strict_prefix (fileDir n fileID) q \<longrightarrow>
        (\<exists>v \<in> set vs. prefix (fileDir n fileID @ [v]) q))"

definition stored :: "digest \<Rightarrow> Node \<Rightarrow> string \<Rightarrow> string \<Rightarrow> string \<Rightarrow> fs \<Rightarrow> bool" where
  "stored sha n fileID versionID data t \<longleftrightarrow>
     lookup t (fileDir n fileID) = Some Dir \<and>
     lookup t (versionPath n fileID versionID) = Some Dir \<and>
     lookup t (dataFile n fileID versionID) = Some (File data) \<and>
     lookup t (checksumFile n fileID versionID) = Some (File (calculateChecksum sha data))"

text \<open>
  A sample digest function and a node for concrete runs; the general theorems hold for
  every digest function and every node.
\<close>

definition demo_sha :: digest where
  "demo_sha data = take 32 (data @ replicate 32 (CHR 0x00))"

definition node1 :: Node where
  "node1 = \<lparr> ID = ''node-1'', StoragePath = ''/data/node-1'' \<rparr>"

section \<open>Notions used in the statements and proofs about the file manager\<close>

text \<open>
  The ordered fail-over read, in the words of the specification: the recorded nodes that
  are in the registry, in order; one \<open>Retrieve\<close> attempt per node; the bytes of the first
  successful attempt, or else the failure that carries the last error observed (none
  when no attempt was made).
\<close>

definition first_success :: "error option \<Rightarrow> (error + string) list \<Rightarrow> error option + string" where
  "first_success lastErr attempts =
     (case dropWhile isl attempts of
        Inr data # _ \<Rightarrow> Inr data
      | _ \<Rightarrow> Inl (if attempts = [] then lastErr else Some (projl (last attempts))))"

definition failover_read ::
  "digest \<Rightarrow> FileManager \<Rightarrow> string \<Rightarrow> Version \<Rightarrow> fs \<Rightarrow> error + string" where
  "failover_read sha fm fileID target t =
     (let live = List.map_filter (fm_nodes fm) (Nodes target);
          attempts = map (\<lambda>node. RetrieveFile sha node fileID (VersionID target) t) live
      in case first_success None attempts of
           Inr data \<Rightarrow> Inr data
         | Inl lastErr \<Rightarrow> Inl (RetrieveFailed lastErr))"

definition download_of ::
  "digest \<Rightarrow> FileManager \<Rightarrow> string \<Rightarrow> Version \<Rightarrow> FileMetadata \<Rightarrow> fs
   \<Rightarrow> error + (string \<times> FileMetadata)" where
  "download_of sha fm fileID target fileMeta t =
     (case failover_read sha fm fileID target t of
        Inr data \<Rightarrow> Inr (data, fileMeta)
      | Inl err \<Rightarrow> Inl err)"

text \<open>
  Sample metadata stores for concrete runs: one that keeps the records in a map, as the
  store of the repository's tests does, and one whose \<open>SaveMetadata\<close> always fails.
\<close>

definition mem_store :: "(string \<rightharpoonup> FileMetadata) Store" where
  "mem_store =
     \<lparr> SaveMetadata = (\<lambda>m meta. (None, meta, m(FileID meta \<mapsto> meta))),
       GetMetadata = (\<lambda>m fileID.
          case m fileID of None \<Rightarrow> Inl (StoreError ''file not found'') | Some meta \<Rightarrow> Inr meta),
       DeleteMetadata = (\<lambda>m fileID. (None, m(fileID := None))) \<rparr>"

definition failing_store :: "(string \<rightharpoonup> FileMetadata) Store" where
  "failing_store =
     mem_store\<lparr> SaveMetadata := (\<lambda>m meta. (Some (StoreError ''unavailable''), meta, m)) \<rparr>"

text \<open>
  A file manager with two registered nodes on an empty file system, built by
  \<open>RegisterNode\<close> from a new file manager whose ring has two virtual nodes per node
  (\<open>NewFileManager\<close> fixes 150) to keep the concrete runs small.
\<close>

definition fm0 :: FileManager where
  "fm0 = (NewFileManager 2)\<lparr> fm_hashRing := NewConsistentHash 2 2 \<rparr>"

definition fm2 :: "FileManager \<times> fs" where
  "fm2 =
     (case RegisterNode demo_md5 ''node-1'' ''/data/node-1'' fm0 [] of
        (_, fm, t) \<Rightarrow>
          (case RegisterNode demo_md5 ''node-2'' ''/data/node-2'' fm t of
             (_, fm', t') \<Rightarrow> (fm', t')))"

text \<open>The state after a successful upload of \<open>hello\<close> to that file manager.\<close>

definition up1 :: "(error + FileMetadata) \<times> fs \<times> (string \<rightharpoonup> FileMetadata)" where
  "up1 = UploadFile demo_md5 demo_sha mem_store (fst fm2) ''file-1'' ''version-1'' 1 2 3
           ''a.txt'' ''hello'' ''text/plain'' (snd fm2) Map.empty"

text \<open>The record of that upload, and a record without versions.\<close>

definition meta1 :: FileMetadata where
  "meta1 = newFileMetadata ''file-1'' ''version-1'' ''a.txt'' ''hello'' ''text/plain''
             [''node-1'', ''node-2''] 1 2 3"

definition meta0 :: FileMetadata where
  "meta0 = (newFileMetadata ''file-0'' ''version-0'' ''b.txt'' '''' ''text/plain'' [] 1 2 3)
             \<lparr> Versions := [] \<rparr>"

section \<open>Lemmas about the hash ring\<close>

lemma seen_Suc: "seen ch idx (Suc i) = insert (nodeAt ch (hashRing ch ! ((idx + i) mod length (hashRing ch)))) (seen ch idx i)"
  by (auto simp: seen_def lessThan_Suc)

lemma seen_mono: "i \<le> k \<Longrightarrow> seen ch idx i \<subseteq> seen ch idx k"
  by (auto simp: seen_def)

lemma finite_seen: "finite (seen ch idx i)"
  by (simp add: seen_def)

lemma rot_idx_surj:
  assumes "k < (n::nat)"
  shows "\<exists>j<n. (idx + j) mod n = k"
proof -
  let ?j = "(k + (n - idx mod n)) mod n"
  have "?j < n" using assms by simp
  moreover have "(idx + ?j) mod n = k"
  proof -
    have "(idx + ?j) mod n = (idx mod n + (k + (n - idx mod n))) mod n"
      by (simp add: mod_add_eq mod_add_right_eq mod_add_left_eq)
    also have "idx mod n + (k + (n - idx mod n)) = k + n"
    proof -
      have "idx mod n < n" using assms by simp
      then show ?thesis by linarith
    qed
    also have "(k + n) mod n = k" using assms by simp
    finally show ?thesis .
  qed
  ultimately show ?thesis by blast
qed

lemma seen_all:
  assumes "hashRing ch \<noteq> []"
  shows "seen ch idx (length (hashRing ch)) = nodeAt ch ` set (hashRing ch)"
proof
  show "seen ch idx (length (hashRing ch)) \<subseteq> nodeAt ch ` set (hashRing ch)"
    using assms by (auto simp: seen_def)
next
  show "nodeAt ch ` set (hashRing ch) \<subseteq> seen ch idx (length (hashRing ch))"
  proof
    fix x assume "x \<in> nodeAt ch ` set (hashRing ch)"
    then obtain k where k: "k < length (hashRing ch)" "x = nodeAt ch (hashRing ch ! k)"
      by (auto simp: in_set_conv_nth)
    from rot_idx_surj[OF k(1), of idx] obtain j where "j < length (hashRing ch)"
      "(idx + j) mod length (hashRing ch) = k" by blast
    with k(2) show "x \<in> seen ch idx (length (hashRing ch))"
      unfolding seen_def by (auto intro!: image_eqI[where x=j])
  qed
qed

lemma GetNodes_loop_inv:
  "nodeSet = (\<lambda>x. x \<in> set ns) \<Longrightarrow> distinct ns \<Longrightarrow> set ns = seen ch idx i \<Longrightarrow>
   i \<le> length (hashRing ch) \<Longrightarrow> length ns \<le> nat (replicaFactor ch) \<Longrightarrow>
   distinct (GetNodes_loop ch idx i nodeSet ns) \<and>
   set (GetNodes_loop ch idx i nodeSet ns) \<subseteq> seen ch idx (length (hashRing ch)) \<and>
   length (GetNodes_loop ch idx i nodeSet ns) =
     min (nat (replicaFactor ch)) (card (seen ch idx (length (hashRing ch))))"
proof (induction ch idx i nodeSet ns rule: GetNodes_loop.induct)
  case (1 ch idx i nodeSet ns)
  let ?n = "length (hashRing ch)"
  let ?x = "nodeAt ch (hashRing ch ! ((idx + i) mod ?n))"
  show ?case
  proof (cases "int (length ns) < replicaFactor ch \<and> i < ?n")
    case False
    have sub: "seen ch idx i \<subseteq> seen ch idx ?n" using "1.prems"(4) by (rule seen_mono)
    have len: "length ns = card (seen ch idx i)"
      using "1.prems"(2,3) distinct_card by fastforce
    have cle: "card (seen ch idx i) \<le> card (seen ch idx ?n)"
      using sub finite_seen by (simp add: card_mono)
    have "length ns = min (nat (replicaFactor ch)) (card (seen ch idx ?n))"
    proof (cases "i < ?n")
      case True
      with False have "nat (replicaFactor ch) \<le> length ns" by linarith
      with "1.prems"(5) have "length ns = nat (replicaFactor ch)" by simp
      with len cle show ?thesis by simp
    next
      case False
      with "1.prems"(4) have "i = ?n" by simp
      with len "1.prems"(5) show ?thesis by simp
    qed
    with False "1.prems" sub show ?thesis
      by (subst (1 2 3) GetNodes_loop.simps) auto
  next
    case True
    show ?thesis
    proof (cases "nodeSet ?x")
      case False
      have IH: "distinct (GetNodes_loop ch idx (i + 1) (nodeSet(?x := True)) (ns @ [?x])) \<and>
         set (GetNodes_loop ch idx (i + 1) (nodeSet(?x := True)) (ns @ [?x])) \<subseteq> seen ch idx ?n \<and>
         length (GetNodes_loop ch idx (i + 1) (nodeSet(?x := True)) (ns @ [?x])) =
           min (nat (replicaFactor ch)) (card (seen ch idx ?n))"
      proof (rule "1.IH"(1)[OF True refl refl False])
        show "nodeSet(?x := True) = (\<lambda>x. x \<in> set (ns @ [?x]))"
          using "1.prems"(1) by (auto simp: fun_eq_iff)
        show "distinct (ns @ [?x])" using "1.prems"(1,2) False by simp
        show "set (ns @ [?x]) = seen ch idx (i + 1)"
          using "1.prems"(3) by (simp add: seen_Suc)
        show "i + 1 \<le> ?n" using True by simp
        show "length (ns @ [?x]) \<le> nat (replicaFactor ch)" using True by auto
      qed
      from True False IH show ?thesis
        by (subst (1 2 3) GetNodes_loop.simps) (simp add: Let_def)
    next
      case T2: True
      have IH: "distinct (GetNodes_loop ch idx (i + 1) nodeSet ns) \<and>
         set (GetNodes_loop ch idx (i + 1) nodeSet ns) \<subseteq> seen ch idx ?n \<and>
         length (GetNodes_loop ch idx (i + 1) nodeSet ns) =
           min (nat (replicaFactor ch)) (card (seen ch idx ?n))"
      proof (rule "1.IH"(2)[OF True refl refl])
        show "\<not> \<not> nodeSet ?x" using T2 by simp
        show "nodeSet = (\<lambda>x. x \<in> set ns)" by (rule "1.prems"(1))
        show "distinct ns" by (rule "1.prems"(2))
        show "set ns = seen ch idx (i + 1)"
          using "1.prems"(1,3) T2 by (auto simp: seen_Suc)
        show "i + 1 \<le> ?n" using True by simp
        show "length ns \<le> nat (replicaFactor ch)" by (rule "1.prems"(5))
      qed
      from True T2 IH show ?thesis
        by (subst (1 2 3) GetNodes_loop.simps) (simp add: Let_def)
    qed
  qed
qed

lemma GetNodes_empty_ring: "hashRing ch = [] \<Longrightarrow> GetNodes md5 ch key = []"
  by (simp add: GetNodes_def)

lemma GetNodes_props:
  assumes "hashRing ch \<noteq> []"
  shows "distinct (GetNodes md5 ch key) \<and>
         set (GetNodes md5 ch key) \<subseteq> nodeAt ch ` set (hashRing ch) \<and>
         length (GetNodes md5 ch key) =
           min (nat (replicaFactor ch)) (card (nodeAt ch ` set (hashRing ch)))"
proof -
  have "seen ch (search ch (hashKey md5 key)) 0 = {}" by (simp add: seen_def)
  then have "distinct (GetNodes_loop ch (search ch (hashKey md5 key)) 0 (\<lambda>_. False) []) \<and>
     set (GetNodes_loop ch (search ch (hashKey md5 key)) 0 (\<lambda>_. False) [])
       \<subseteq> seen ch (search ch (hashKey md5 key)) (length (hashRing ch)) \<and>
     length (GetNodes_loop ch (search ch (hashKey md5 key)) 0 (\<lambda>_. False) []) =
       min (nat (replicaFactor ch)) (card (seen ch (search ch (hashKey md5 key)) (length (hashRing ch))))"
    by (intro GetNodes_loop_inv) simp_all
  with assms show ?thesis
    by (simp add: GetNodes_def Let_def seen_all)
qed


lemma nodeAt_image_sub: "nodeAt ch ` set (hashRing ch) \<subseteq> insert '''' (ran (nodes ch))"
  by (auto simp: nodeAt_def ran_def split: option.splits)

lemma AddNode_step_fields:
  "virtualNodes (AddNode_step md5 n ch i) = virtualNodes ch"
  "replicaFactor (AddNode_step md5 n ch i) = replicaFactor ch"
  "hashRing (AddNode_step md5 n ch i) = hashRing ch @ [hashKey md5 (virtualKey n i)]"
  "nodes (AddNode_step md5 n ch i) = (nodes ch)(hashKey md5 (virtualKey n i) \<mapsto> n)"
  by (simp_all add: AddNode_step_def Let_def)

lemma AddNode_fold_fields:
  "virtualNodes (foldl (AddNode_step md5 n) ch is) = virtualNodes ch \<and>
   replicaFactor (foldl (AddNode_step md5 n) ch is) = replicaFactor ch \<and>
   hashRing (foldl (AddNode_step md5 n) ch is) =
     hashRing ch @ map (\<lambda>i. hashKey md5 (virtualKey n i)) is \<and>
   (\<forall>p. nodes (foldl (AddNode_step md5 n) ch is) p =
     (if p \<in> (\<lambda>i. hashKey md5 (virtualKey n i)) ` set is then Some n else nodes ch p))"
proof (induction "is" arbitrary: ch)
  case Nil
  show ?case by simp
next
  case (Cons i "is")
  show ?case
    by (simp add: Cons.IH[of "AddNode_step md5 n ch i"] AddNode_step_fields)
qed

lemma AddNode_fields:
  "virtualNodes (AddNode md5 n ch) = virtualNodes ch"
  "replicaFactor (AddNode md5 n ch) = replicaFactor ch"
  "hashRing (AddNode md5 n ch) =
     sort (hashRing ch @ map (\<lambda>i. hashKey md5 (virtualKey n i)) [0..<nat (virtualNodes ch)])"
  "nodes (AddNode md5 n ch) p =
     (if p \<in> vpos md5 (virtualNodes ch) n then Some n else nodes ch p)"
  by (simp_all add: AddNode_def Let_def AddNode_fold_fields vpos_def atLeast0LessThan)

lemma RemoveNode_step_fields:
  "virtualNodes (RemoveNode_step md5 n ch i) = virtualNodes ch"
  "replicaFactor (RemoveNode_step md5 n ch i) = replicaFactor ch"
  "nodes (RemoveNode_step md5 n ch i) = (nodes ch)(hashKey md5 (virtualKey n i) := None)"
  by (simp_all add: RemoveNode_step_def Let_def)

lemma RemoveNode_fold_fields:
  "virtualNodes (foldl (RemoveNode_step md5 n) ch is) = virtualNodes ch \<and>
   replicaFactor (foldl (RemoveNode_step md5 n) ch is) = replicaFactor ch \<and>
   (\<forall>p. nodes (foldl (RemoveNode_step md5 n) ch is) p =
     (if p \<in> (\<lambda>i. hashKey md5 (virtualKey n i)) ` set is then None else nodes ch p))"
proof (induction "is" arbitrary: ch)
  case Nil
  show ?case by simp
next
  case (Cons i "is")
  show ?case
    by (simp add: Cons.IH[of "RemoveNode_step md5 n ch i"] RemoveNode_step_fields)
qed

lemma RemoveNode_fields:
  "virtualNodes (RemoveNode md5 n ch) = virtualNodes ch"
  "replicaFactor (RemoveNode md5 n ch) = replicaFactor ch"
  "nodes (RemoveNode md5 n ch) p =
     (if p \<in> vpos md5 (virtualNodes ch) n then None else nodes ch p)"
  by (simp_all add: RemoveNode_def RemoveNode_fold_fields vpos_def atLeast0LessThan)

lemma owner_inv_New: "owner_inv md5 (NewConsistentHash vn rf)"
  by (simp add: owner_inv_def NewConsistentHash_def)

lemma owner_inv_Add: "owner_inv md5 ch \<Longrightarrow> owner_inv md5 (AddNode md5 n ch)"
  unfolding owner_inv_def by (simp add: AddNode_fields)

lemma owner_inv_Remove: "owner_inv md5 ch \<Longrightarrow> owner_inv md5 (RemoveNode md5 n ch)"
  unfolding owner_inv_def by (simp add: RemoveNode_fields)

lemma owner_inv_apply: "owner_inv md5 ch \<Longrightarrow> owner_inv md5 (apply_op md5 ch op)"
  by (cases op) (simp_all add: owner_inv_Add owner_inv_Remove)

lemma owner_inv_run: "owner_inv md5 ch \<Longrightarrow> owner_inv md5 (run_ops md5 ops ch)"
  unfolding run_ops_def
  by (induction ops arbitrary: ch) (simp_all add: owner_inv_apply)

lemma run_ops_append: "run_ops md5 (xs @ ys) ch = run_ops md5 ys (run_ops md5 xs ch)"
  by (simp add: run_ops_def)

lemma removed_not_owner:
  assumes "owner_inv md5 ch"
  shows "N \<notin> ran (nodes (RemoveNode md5 N ch))"
proof
  assume "N \<in> ran (nodes (RemoveNode md5 N ch))"
  then obtain p where p: "nodes (RemoveNode md5 N ch) p = Some N" by (auto simp: ran_def)
  then have "p \<notin> vpos md5 (virtualNodes ch) N" "nodes ch p = Some N"
    by (simp_all add: RemoveNode_fields split: if_splits)
  with assms show False by (simp add: owner_inv_def)
qed

lemma not_owner_apply:
  assumes "N \<notin> ran (nodes ch)" and "op \<noteq> OpAdd N"
  shows "N \<notin> ran (nodes (apply_op md5 ch op))"
proof
  assume "N \<in> ran (nodes (apply_op md5 ch op))"
  then obtain p where p: "nodes (apply_op md5 ch op) p = Some N" by (auto simp: ran_def)
  have "nodes ch p = Some N"
  proof (cases op)
    case (OpAdd m)
    with p assms(2) show ?thesis by (simp add: AddNode_fields split: if_splits)
  next
    case (OpRemove m)
    with p show ?thesis by (simp add: RemoveNode_fields split: if_splits)
  qed
  with assms(1) show False by (auto simp: ran_def)
qed

lemma not_owner_run:
  "N \<notin> ran (nodes ch) \<Longrightarrow> OpAdd N \<notin> set ops \<Longrightarrow> N \<notin> ran (nodes (run_ops md5 ops ch))"
  unfolding run_ops_def
proof (induction ops arbitrary: ch)
  case Nil
  then show ?case by simp
next
  case (Cons op ops)
  from Cons.prems have "N \<notin> ran (nodes (apply_op md5 ch op))"
    by (intro not_owner_apply) auto
  with Cons.IH[of "apply_op md5 ch op"] Cons.prems(2) show ?case by simp
qed

lemma GetNodes_sub: "set (GetNodes md5 ch key) \<subseteq> insert '''' (ran (nodes ch))"
proof (cases "hashRing ch = []")
  case True
  then show ?thesis by (simp add: GetNodes_empty_ring)
next
  case False
  from GetNodes_props[OF False, of md5 key] nodeAt_image_sub[of ch]
  show ?thesis by blast
qed

lemma Search_loop_spec:
  assumes "i \<le> j" "j \<le> n"
    and "\<forall>k<i. \<not> f k"
    and "\<forall>k. j \<le> k \<and> k < n \<longrightarrow> f k"
    and "\<forall>a b. a \<le> b \<and> b < n \<and> f a \<longrightarrow> f b"
  shows "Search_loop f i j \<le> n \<and> (\<forall>k<Search_loop f i j. \<not> f k) \<and>
         (\<forall>k. Search_loop f i j \<le> k \<and> k < n \<longrightarrow> f k)"
  using assms
proof (induction f i j rule: Search_loop.induct)
  case (1 f i j)
  show ?case
  proof (cases "i < j")
    case False
    with "1.prems" have "i = j" by simp
    with False "1.prems" show ?thesis
      by (subst (1 2 3) Search_loop.simps) simp
  next
    case True
    let ?h = "(i + j) div 2"
    have h: "i \<le> ?h" "?h < j" using True by auto
    show ?thesis
    proof (cases "f ?h")
      case False
      have lo: "\<forall>k<?h + 1. \<not> f k"
      proof (intro allI impI)
        fix k assume "k < ?h + 1"
        then have "k \<le> ?h" by simp
        moreover have "?h < n" using h "1.prems"(2) by simp
        ultimately have "f k \<longrightarrow> f ?h" using "1.prems"(5)[rule_format, of k ?h] by simp
        with False show "\<not> f k" by simp
      qed
      have "Search_loop f (?h + 1) j \<le> n \<and> (\<forall>k<Search_loop f (?h + 1) j. \<not> f k) \<and>
         (\<forall>k. Search_loop f (?h + 1) j \<le> k \<and> k < n \<longrightarrow> f k)"
        using h "1.prems"(2,4,5) lo
        by (intro "1.IH"(1)[OF True refl False]) simp_all
      with True False show ?thesis
        by (subst (1 2 3) Search_loop.simps) (simp add: Let_def)
    next
      case T: True
      have hi: "\<forall>k. ?h \<le> k \<and> k < n \<longrightarrow> f k"
      proof (intro allI impI)
        fix k assume "?h \<le> k \<and> k < n"
        with T "1.prems"(5)[rule_format, of ?h k] show "f k" by simp
      qed
      have "Search_loop f i ?h \<le> n \<and> (\<forall>k<Search_loop f i ?h. \<not> f k) \<and>
         (\<forall>k. Search_loop f i ?h \<le> k \<and> k < n \<longrightarrow> f k)"
      proof (rule "1.IH"(2)[OF True refl])
        show "\<not> \<not> f ?h" using T by simp
        show "i \<le> ?h" by (rule h(1))
        show "?h \<le> n" using h(2) "1.prems"(2) by simp
        show "\<forall>k<i. \<not> f k" by (rule "1.prems"(3))
        show "\<forall>k. ?h \<le> k \<and> k < n \<longrightarrow> f k" by (rule hi)
        show "\<forall>a b. a \<le> b \<and> b < n \<and> f a \<longrightarrow> f b" by (rule "1.prems"(5))
      qed
      with True T show ?thesis
        by (subst (1 2 3) Search_loop.simps) (simp add: Let_def)
    qed
  qed
qed

lemma Search_sorted:
  fixes xs :: "uint32 list" and h :: uint32
  assumes "sorted xs"
  defines "r \<equiv> Search (length xs) (\<lambda>j. xs ! j \<ge> h)"
  shows "r \<le> length xs" "\<forall>k<r. xs ! k < h" "\<forall>k. r \<le> k \<and> k < length xs \<longrightarrow> h \<le> xs ! k"
proof -
  have mono: "\<forall>a b. a \<le> b \<and> b < length xs \<and> h \<le> xs ! a \<longrightarrow> h \<le> xs ! b"
    using assms(1) by (meson order_trans sorted_nth_mono)
  have "Search_loop (\<lambda>j. xs ! j \<ge> h) 0 (length xs) \<le> length xs \<and>
        (\<forall>k<Search_loop (\<lambda>j. xs ! j \<ge> h) 0 (length xs). \<not> (xs ! k \<ge> h)) \<and>
        (\<forall>k. Search_loop (\<lambda>j. xs ! j \<ge> h) 0 (length xs) \<le> k \<and> k < length xs \<longrightarrow> xs ! k \<ge> h)"
    by (rule Search_loop_spec) (use mono in auto)
  then show "r \<le> length xs" "\<forall>k<r. xs ! k < h"
    "\<forall>k. r \<le> k \<and> k < length xs \<longrightarrow> h \<le> xs ! k"
    by (simp_all add: r_def Search_def not_le)
qed

lemma remove_found:
  fixes xs :: "uint32 list" and h :: uint32
  assumes "sorted xs"
  defines "r \<equiv> Search (length xs) (\<lambda>j. xs ! j \<ge> h)"
  shows "(if r < length xs \<and> xs ! r = h then take r xs @ drop (r + 1) xs else xs) = remove1 h xs"
proof (cases "r < length xs \<and> xs ! r = h")
  case True
  from Search_sorted(2)[OF assms(1), of h] have lt: "\<forall>k<r. xs ! k < h" by (simp add: r_def)
  have "h \<notin> set (take r xs)"
  proof
    assume "h \<in> set (take r xs)"
    then obtain k where "k < length (take r xs)" "take r xs ! k = h"
      by (auto simp: in_set_conv_nth)
    with lt show False by auto
  qed
  then have "remove1 h (take r xs @ h # drop (Suc r) xs) = take r xs @ drop (Suc r) xs"
    by (simp add: remove1_append)
  moreover have "take r xs @ h # drop (Suc r) xs = xs"
    using True id_take_nth_drop[of r xs] by simp
  ultimately have "remove1 h xs = take r xs @ drop (Suc r) xs"
    by simp
  with True show ?thesis by simp
next
  case False
  from Search_sorted[OF assms(1), of h]
  have lt: "\<forall>k<r. xs ! k < h" and ge: "\<forall>k. r \<le> k \<and> k < length xs \<longrightarrow> h \<le> xs ! k"
    by (simp_all add: r_def)
  have "h \<notin> set xs"
  proof
    assume "h \<in> set xs"
    then obtain k where k: "k < length xs" "xs ! k = h" by (auto simp: in_set_conv_nth)
    show False
    proof (cases "k < r")
      case True
      with lt k show False by auto
    next
      case F: False
      then have rk: "r \<le> k" by simp
      with k have rlt: "r < length xs" by simp
      with ge have "h \<le> xs ! r" by simp
      moreover have "xs ! r \<le> xs ! k" using assms(1) rk k(1) by (simp add: sorted_nth_mono)
      ultimately have "xs ! r = h" using k(2) by simp
      with rlt False show False by simp
    qed
  qed
  then have "remove1 h xs = xs" by (rule remove1_idem)
  with False show ?thesis by auto
qed

lemma RemoveNode_step_ring:
  "sorted (hashRing ch) \<Longrightarrow>
   hashRing (RemoveNode_step md5 n ch i) = remove1 (hashKey md5 (virtualKey n i)) (hashRing ch)"
  using remove_found[of "hashRing ch" "hashKey md5 (virtualKey n i)"]
  by (simp add: RemoveNode_step_def Let_def)

lemma RemoveNode_fold_ring:
  "sorted (hashRing ch) \<Longrightarrow> distinct (hashRing ch) \<Longrightarrow>
   sorted (hashRing (foldl (RemoveNode_step md5 n) ch is)) \<and>
   distinct (hashRing (foldl (RemoveNode_step md5 n) ch is)) \<and>
   set (hashRing (foldl (RemoveNode_step md5 n) ch is)) =
     set (hashRing ch) - (\<lambda>i. hashKey md5 (virtualKey n i)) ` set is"
proof (induction "is" arbitrary: ch)
  case Nil
  then show ?case by simp
next
  case (Cons i "is")
  let ?ch = "RemoveNode_step md5 n ch i"
  have r: "hashRing ?ch = remove1 (hashKey md5 (virtualKey n i)) (hashRing ch)"
    using Cons.prems(1) by (rule RemoveNode_step_ring)
  have s: "sorted (hashRing ?ch)" "distinct (hashRing ?ch)"
    using Cons.prems by (simp_all add: r sorted_remove1)
  have st: "set (hashRing ?ch) = set (hashRing ch) - {hashKey md5 (virtualKey n i)}"
    using Cons.prems(2) by (simp add: r)
  from Cons.IH[OF s] st show ?case by auto
qed

lemma RemoveNode_ring:
  assumes "sorted (hashRing ch)" "distinct (hashRing ch)"
  shows "sorted (hashRing (RemoveNode md5 n ch))" "distinct (hashRing (RemoveNode md5 n ch))"
    "set (hashRing (RemoveNode md5 n ch)) = set (hashRing ch) - vpos md5 (virtualNodes ch) n"
  using RemoveNode_fold_ring[OF assms, of md5 n "[0..<nat (virtualNodes ch)]"]
  by (simp_all add: RemoveNode_def vpos_def atLeast0LessThan)

lemma cf_disjoint:
  assumes "collision_free md5 vn U" "n \<in> U" "m \<in> U" "n \<noteq> m"
  shows "vpos md5 vn n \<inter> vpos md5 vn m = {}"
proof (rule ccontr)
  assume "vpos md5 vn n \<inter> vpos md5 vn m \<noteq> {}"
  then obtain i j where ij: "i < nat vn" "j < nat vn"
    "hashKey md5 (virtualKey n i) = hashKey md5 (virtualKey m j)"
    by (auto simp: vpos_def)
  have "(n, i) \<in> U \<times> {..<nat vn}" "(m, j) \<in> U \<times> {..<nat vn}"
    using assms(2,3) ij(1,2) by simp_all
  with assms(1) ij(3) have "(n, i) = (m, j)"
    unfolding collision_free_def inj_on_def by fastforce
  with assms(4) show False by simp
qed

lemma cf_distinct:
  assumes "collision_free md5 vn U" "n \<in> U"
  shows "distinct (map (\<lambda>i. hashKey md5 (virtualKey n i)) [0..<nat vn])"
proof -
  have "inj_on (\<lambda>i. hashKey md5 (virtualKey n i)) {..<nat vn}"
  proof (rule inj_onI)
    fix i j assume ij: "i \<in> {..<nat vn}" "j \<in> {..<nat vn}"
      "hashKey md5 (virtualKey n i) = hashKey md5 (virtualKey n j)"
    have "(n, i) \<in> U \<times> {..<nat vn}" "(n, j) \<in> U \<times> {..<nat vn}"
      using assms(2) ij(1,2) by simp_all
    with assms(1) ij(3) have "(n, i) = (n, j)"
      unfolding collision_free_def inj_on_def by fastforce
    then show "i = j" by simp
  qed
  then show ?thesis by (simp add: distinct_map atLeast0LessThan)
qed

lemma ring_inv_New: "ring_inv md5 (NewConsistentHash vn rf) {}"
  by (simp add: ring_inv_def NewConsistentHash_def)

lemma ring_inv_Add:
  assumes inv: "ring_inv md5 ch S" and cf: "collision_free md5 (virtualNodes ch) U"
    and U: "S \<subseteq> U" "n \<in> U" and fresh: "n \<notin> S"
  shows "ring_inv md5 (AddNode md5 n ch) (insert n S)"
proof -
  let ?vn = "virtualNodes ch"
  let ?new = "map (\<lambda>i. hashKey md5 (virtualKey n i)) [0..<nat ?vn]"
  have setnew: "set ?new = vpos md5 ?vn n" by (simp add: vpos_def atLeast0LessThan)
  have disj: "\<And>m. m \<in> S \<Longrightarrow> vpos md5 ?vn n \<inter> vpos md5 ?vn m = {}"
    using cf_disjoint[OF cf U(2)] U(1) fresh by blast
  have ring: "set (hashRing ch) = (\<Union>m\<in>S. vpos md5 ?vn m)" using inv by (simp add: ring_inv_def)
  have d1: "distinct (hashRing ch)" using inv by (simp add: ring_inv_def)
  have d2: "distinct ?new" using cf U(2) by (rule cf_distinct)
  have d3: "set (hashRing ch) \<inter> set ?new = {}"
    unfolding setnew ring using disj by blast
  have dist: "distinct (hashRing ch @ ?new)" using d1 d2 d3 by simp
  have sets: "set (hashRing ch @ ?new) = (\<Union>m\<in>insert n S. vpos md5 ?vn m)"
    unfolding set_append setnew ring by blast
  have dom: "dom (nodes (AddNode md5 n ch)) = set (hashRing ch @ ?new)"
  proof -
    have "dom (nodes (AddNode md5 n ch)) = vpos md5 ?vn n \<union> dom (nodes ch)"
      by (auto simp: dom_def AddNode_fields)
    also have "dom (nodes ch) = set (hashRing ch)" using inv by (simp add: ring_inv_def)
    finally show ?thesis unfolding set_append setnew by blast
  qed
  have own: "\<forall>m\<in>insert n S. \<forall>p\<in>vpos md5 ?vn m. nodes (AddNode md5 n ch) p = Some m"
  proof (intro ballI)
    fix m p assume m: "m \<in> insert n S" and p: "p \<in> vpos md5 ?vn m"
    show "nodes (AddNode md5 n ch) p = Some m"
    proof (cases "m = n")
      case True
      with p show ?thesis by (simp add: AddNode_fields)
    next
      case False
      with m have mS: "m \<in> S" by simp
      with disj p have "p \<notin> vpos md5 ?vn n" by blast
      moreover have "nodes ch p = Some m" using inv mS p by (simp add: ring_inv_def)
      ultimately show ?thesis by (simp add: AddNode_fields)
    qed
  qed
  show ?thesis
    unfolding ring_inv_def
    using dist sets dom own by (simp add: AddNode_fields)
qed

lemma ring_inv_Remove:
  assumes inv: "ring_inv md5 ch S" and cf: "collision_free md5 (virtualNodes ch) U"
    and U: "S \<subseteq> U" "n \<in> U"
  shows "ring_inv md5 (RemoveNode md5 n ch) (S - {n})"
proof -
  let ?vn = "virtualNodes ch"
  have so: "sorted (hashRing ch)" "distinct (hashRing ch)" using inv by (simp_all add: ring_inv_def)
  have ring: "set (hashRing ch) = (\<Union>m\<in>S. vpos md5 ?vn m)" using inv by (simp add: ring_inv_def)
  have disj: "\<And>m. m \<in> S - {n} \<Longrightarrow> vpos md5 ?vn n \<inter> vpos md5 ?vn m = {}"
    using cf_disjoint[OF cf U(2)] U(1) by blast
  have sets: "set (hashRing (RemoveNode md5 n ch)) = (\<Union>m\<in>S - {n}. vpos md5 ?vn m)"
    unfolding RemoveNode_ring(3)[OF so] ring using disj by blast
  have dom: "dom (nodes (RemoveNode md5 n ch)) = set (hashRing (RemoveNode md5 n ch))"
  proof -
    have "dom (nodes (RemoveNode md5 n ch)) = dom (nodes ch) - vpos md5 ?vn n"
      by (auto simp: dom_def RemoveNode_fields)
    also have "dom (nodes ch) = set (hashRing ch)" using inv by (simp add: ring_inv_def)
    finally show ?thesis by (simp add: RemoveNode_ring(3)[OF so])
  qed
  have own: "\<forall>m\<in>S - {n}. \<forall>p\<in>vpos md5 ?vn m. nodes (RemoveNode md5 n ch) p = Some m"
  proof (intro ballI)
    fix m p assume m: "m \<in> S - {n}" and p: "p \<in> vpos md5 ?vn m"
    from disj[OF m] p have "p \<notin> vpos md5 ?vn n" by blast
    moreover have "nodes ch p = Some m" using inv m p by (simp add: ring_inv_def)
    ultimately show "nodes (RemoveNode md5 n ch) p = Some m" by (simp add: RemoveNode_fields)
  qed
  show ?thesis
    unfolding ring_inv_def
    using RemoveNode_ring(1,2)[OF so] sets dom own by (simp add: RemoveNode_fields)
qed

lemma apply_op_virtualNodes: "virtualNodes (apply_op md5 ch op) = virtualNodes ch"
  by (cases op) (simp_all add: AddNode_fields RemoveNode_fields)

lemma run_ops_virtualNodes: "virtualNodes (run_ops md5 ops ch) = virtualNodes ch"
  unfolding run_ops_def
  by (induction ops arbitrary: ch) (simp_all add: apply_op_virtualNodes)

lemma ring_inv_run:
  "ring_inv md5 ch S \<Longrightarrow> collision_free md5 (virtualNodes ch) U \<Longrightarrow> S \<subseteq> U \<Longrightarrow>
   op_node ` set ops \<subseteq> U \<Longrightarrow> fresh_adds S ops \<Longrightarrow> finite S \<Longrightarrow>
   ring_inv md5 (run_ops md5 ops ch) (present S ops) \<and> present S ops \<subseteq> U \<and>
   finite (present S ops)"
proof (induction ops arbitrary: ch S)
  case Nil
  then show ?case by (simp add: run_ops_def)
next
  case (Cons op ops)
  show ?case
  proof (cases op)
    case (OpAdd n)
    have n: "n \<in> U" "n \<notin> S" using Cons.prems(4,5) OpAdd by simp_all
    have inv': "ring_inv md5 (AddNode md5 n ch) (insert n S)"
      using Cons.prems(1,2,3) n by (intro ring_inv_Add) simp_all
    have "ring_inv md5 (run_ops md5 ops (AddNode md5 n ch)) (present (insert n S) ops) \<and>
          present (insert n S) ops \<subseteq> U \<and> finite (present (insert n S) ops)"
      using inv' Cons.prems n OpAdd
      by (intro Cons.IH) (simp_all add: AddNode_fields)
    with OpAdd show ?thesis by (simp add: run_ops_def)
  next
    case (OpRemove n)
    have n: "n \<in> U" using Cons.prems(4) OpRemove by simp
    have inv': "ring_inv md5 (RemoveNode md5 n ch) (S - {n})"
      using Cons.prems(1,2,3) n by (intro ring_inv_Remove) simp_all
    have "ring_inv md5 (run_ops md5 ops (RemoveNode md5 n ch)) (present (S - {n}) ops) \<and>
          present (S - {n}) ops \<subseteq> U \<and> finite (present (S - {n}) ops)"
      using inv' Cons.prems n OpRemove
      by (intro Cons.IH) (auto simp: RemoveNode_fields)
    with OpRemove show ?thesis by (simp add: run_ops_def)
  qed
qed

lemma ring_inv_length:
  assumes inv: "ring_inv md5 ch S" and cf: "collision_free md5 (virtualNodes ch) U"
    and U: "S \<subseteq> U" and fin: "finite S"
  shows "length (hashRing ch) = nat (virtualNodes ch) * card S"
proof -
  let ?f = "\<lambda>(n, i). hashKey md5 (virtualKey n i)"
  have "distinct (hashRing ch)" using inv by (simp add: ring_inv_def)
  then have "length (hashRing ch) = card (set (hashRing ch))"
    by (simp add: distinct_card)
  also have "set (hashRing ch) = ?f ` (S \<times> {..<nat (virtualNodes ch)})"
    using inv by (auto simp: ring_inv_def vpos_def)
  also have "card (?f ` (S \<times> {..<nat (virtualNodes ch)})) = card (S \<times> {..<nat (virtualNodes ch)})"
  proof (rule card_image)
    have "S \<times> {..<nat (virtualNodes ch)} \<subseteq> U \<times> {..<nat (virtualNodes ch)}" using U by blast
    with cf show "inj_on ?f (S \<times> {..<nat (virtualNodes ch)})"
      unfolding collision_free_def by (rule inj_on_subset)
  qed
  also have "\<dots> = nat (virtualNodes ch) * card S" by (simp add: card_cartesian_product)
  finally show ?thesis .
qed

lemma ring_inv_all_nodes:
  assumes inv: "ring_inv md5 ch S" and vn: "0 < virtualNodes ch"
    and cf: "collision_free md5 (virtualNodes ch) U" and U: "S \<subseteq> U"
  shows "GetAllNodes ch = S"
proof
  show "GetAllNodes ch \<subseteq> S"
  proof
    fix m assume "m \<in> GetAllNodes ch"
    then obtain p where p: "nodes ch p = Some m" by (auto simp: GetAllNodes_def ran_def)
    then have "p \<in> set (hashRing ch)" using inv by (auto simp: ring_inv_def)
    then obtain n where n: "n \<in> S" "p \<in> vpos md5 (virtualNodes ch) n"
      using inv by (auto simp: ring_inv_def)
    with inv have "nodes ch p = Some n" by (simp add: ring_inv_def)
    with p n(1) show "m \<in> S" by simp
  qed
next
  show "S \<subseteq> GetAllNodes ch"
  proof
    fix n assume n: "n \<in> S"
    have "hashKey md5 (virtualKey n 0) \<in> vpos md5 (virtualNodes ch) n"
      using vn by (auto simp: vpos_def)
    with inv n have "nodes ch (hashKey md5 (virtualKey n 0)) = Some n"
      by (simp add: ring_inv_def)
    then show "n \<in> GetAllNodes ch" by (auto simp: GetAllNodes_def ran_def)
  qed
qed

lemma collision_free_code:
  assumes "distinct ns"
    and "distinct (map (\<lambda>(n, i). hashKey md5 (virtualKey n i)) (List.product ns [0..<nat vn]))"
  shows "collision_free md5 vn (set ns)"
proof -
  have "distinct (List.product ns [0..<nat vn])" using assms(1) by (simp add: distinct_product)
  with assms(2) have "inj_on (\<lambda>(n, i). hashKey md5 (virtualKey n i)) (set (List.product ns [0..<nat vn]))"
    by (simp add: distinct_map)
  moreover have "set (List.product ns [0..<nat vn]) = set ns \<times> {..<nat vn}"
    by (auto simp: atLeast0LessThan)
  ultimately show ?thesis by (simp add: collision_free_def)
qed

lemma fresh_run_inv:
  assumes "fresh_adds {} ops"
    and "collision_free md5 (virtualNodes (NewConsistentHash vn rf)) (op_node ` set ops)"
  shows "ring_inv md5 (run_ops md5 ops (NewConsistentHash vn rf)) (present {} ops)"
    and "present {} ops \<subseteq> op_node ` set ops" and "finite (present {} ops)"
  using ring_inv_run[OF ring_inv_New, of md5 vn rf "op_node ` set ops" ops] assms
  by simp_all


lemma fresh_run_all_nodes:
  assumes "fresh_adds {} ops"
    and "collision_free md5 (virtualNodes (NewConsistentHash vn rf)) (op_node ` set ops)"
  shows "GetAllNodes (run_ops md5 ops (NewConsistentHash vn rf)) = present {} ops"
proof (rule ring_inv_all_nodes)
  show "ring_inv md5 (run_ops md5 ops (NewConsistentHash vn rf)) (present {} ops)"
    using assms by (rule fresh_run_inv(1))
  show "0 < virtualNodes (run_ops md5 ops (NewConsistentHash vn rf))"
    by (simp add: run_ops_virtualNodes NewConsistentHash_def DefaultVirtualNodes_def)
  show "collision_free md5 (virtualNodes (run_ops md5 ops (NewConsistentHash vn rf))) (op_node ` set ops)"
    using assms(2) by (simp add: run_ops_virtualNodes)
  show "present {} ops \<subseteq> op_node ` set ops" using assms by (rule fresh_run_inv(2))
qed

lemma fresh_run_length:
  assumes "fresh_adds {} ops"
    and "collision_free md5 (virtualNodes (NewConsistentHash vn rf)) (op_node ` set ops)"
  shows "length (hashRing (run_ops md5 ops (NewConsistentHash vn rf))) =
         nat (virtualNodes (NewConsistentHash vn rf)) * card (present {} ops)"
proof -
  have "length (hashRing (run_ops md5 ops (NewConsistentHash vn rf))) =
        nat (virtualNodes (run_ops md5 ops (NewConsistentHash vn rf))) * card (present {} ops)"
  proof (rule ring_inv_length)
    show "ring_inv md5 (run_ops md5 ops (NewConsistentHash vn rf)) (present {} ops)"
      using assms by (rule fresh_run_inv(1))
    show "collision_free md5 (virtualNodes (run_ops md5 ops (NewConsistentHash vn rf))) (op_node ` set ops)"
      using assms(2) by (simp add: run_ops_virtualNodes)
    show "present {} ops \<subseteq> op_node ` set ops" using assms by (rule fresh_run_inv(2))
    show "finite (present {} ops)" using assms by (rule fresh_run_inv(3))
  qed
  then show ?thesis by (simp add: run_ops_virtualNodes)
qed


subsection \<open>Concrete runs with the sample digest\<close>

lemma demo_cf: "collision_free demo_md5 2 (set [''a'', ''b'', ''c''])"
  by (rule collision_free_code) code_simp+

lemma demo_cf': "collision_free demo_md5 (virtualNodes (NewConsistentHash 2 2))
     (op_node ` set [OpAdd ''a'', OpAdd ''b'', OpRemove ''a'', OpAdd ''c''])"
proof -
  have "op_node ` set [OpAdd ''a'', OpAdd ''b'', OpRemove ''a'', OpAdd ''c''] = set [''a'', ''b'', ''c'']"
    by auto
  with demo_cf show ?thesis by (simp add: NewConsistentHash_def)
qed

lemma demo_fresh: "fresh_adds {} [OpAdd ''a'', OpAdd ''b'', OpRemove ''a'', OpAdd ''c'']"
  by simp

lemma demo_present: "present {} [OpAdd ''a'', OpAdd ''b'', OpRemove ''a'', OpAdd ''c''] = {''b'', ''c''}"
  by auto

section \<open>Claims about the hash ring\<close>





text \<open>
  C7, as amended. Starting from a new ring, after any operations \<open>ops\<close>, then
  \<open>RemoveNode(N)\<close>, then any operations \<open>ops'\<close> that do not add \<open>N\<close> again, a non-empty
  identifier \<open>N\<close> is in no result of \<open>GetNodes\<close>, whatever the key, the digest function,
  repeated additions or colliding positions.
\<close>

theorem removed_node_never_returned:
  assumes "N \<noteq> ''''" and "OpAdd N \<notin> set ops'"
  shows "N \<notin> set (GetNodes md5
           (run_ops md5 (ops @ [OpRemove N] @ ops') (NewConsistentHash vn rf)) key)"
proof -
  let ?ch = "run_ops md5 ops (NewConsistentHash vn rf)"
  have "owner_inv md5 ?ch" by (intro owner_inv_run owner_inv_New)
  then have "N \<notin> ran (nodes (RemoveNode md5 N ?ch))" by (rule removed_not_owner)
  then have "N \<notin> ran (nodes (run_ops md5 ops' (RemoveNode md5 N ?ch)))"
    using assms(2) by (rule not_owner_run)
  moreover have "run_ops md5 (ops @ [OpRemove N] @ ops') (NewConsistentHash vn rf) =
      run_ops md5 ops' (RemoveNode md5 N ?ch)"
    by (simp add: run_ops_def)
  ultimately show ?thesis
    using GetNodes_sub[of md5 "run_ops md5 ops' (RemoveNode md5 N ?ch)" key] assms(1)
    by auto
qed

text \<open>Witness for C7: node \<open>b\<close> is removed, then other nodes are added and removed.\<close>

theorem removed_node_never_returned_witness:
  "''b'' \<noteq> '''' \<and> OpAdd ''b'' \<notin> set [OpAdd ''c'', OpRemove ''a''] \<and>
   ''b'' \<notin> set (GetNodes demo_md5
      (run_ops demo_md5 ([OpAdd ''a'', OpAdd ''b''] @ [OpRemove ''b''] @ [OpAdd ''c'', OpRemove ''a''])
         (NewConsistentHash 2 2)) ''file-1'')"
  using removed_node_never_returned[of "''b''" "[OpAdd ''c'', OpRemove ''a'']" demo_md5
      "[OpAdd ''a'', OpAdd ''b'']" 2 2 "''file-1''"]
  by simp

text \<open>
  Counterexample to C7 as stated (for every identifier): the empty identifier. After
  \<open>AddNode("")\<close> twice and \<open>RemoveNode("")\<close> one ring entry remains without a map entry,
  and the lookup of the missing key yields the empty string, which is \<open>N\<close>. This holds
  for every digest function and every key.
\<close>

theorem removed_empty_id_counterexample:
  "\<forall>md5 key. '''' \<in> set (GetNodes md5
      (run_ops md5 ([OpAdd '''', OpAdd ''''] @ [OpRemove ''''] @ []) (NewConsistentHash 1 2)) key)"
  by (simp add: run_ops_def AddNode_def AddNode_step_def RemoveNode_def RemoveNode_step_def
      NewConsistentHash_def Search_def GetNodes_def search_def nodeAt_def Let_def
      Search_loop.simps GetNodes_loop.simps)

text \<open>
  C8, as amended. Starting from a new ring, after every sequence of \<open>AddNode\<close> and
  \<open>RemoveNode\<close> in which a node is added only while it is not in the ring, and for which
  no two virtual nodes of the nodes involved share a position, the ring has exactly
  \<open>virtualNodes \<times> R\<close> entries, where \<open>R\<close> is the number of distinct nodes in the ring, and
  these are the nodes added and not removed since.
\<close>

theorem ring_length_fresh_adds:
  assumes "fresh_adds {} ops"
    and "collision_free md5 (virtualNodes (NewConsistentHash vn rf)) (op_node ` set ops)"
  shows "length (hashRing (run_ops md5 ops (NewConsistentHash vn rf))) =
           nat (virtualNodes (NewConsistentHash vn rf)) *
           card (GetAllNodes (run_ops md5 ops (NewConsistentHash vn rf))) \<and>
         GetAllNodes (run_ops md5 ops (NewConsistentHash vn rf)) = present {} ops"
  using fresh_run_length[OF assms] fresh_run_all_nodes[OF assms] by simp

text \<open>Witness for C8: two virtual nodes per node, two nodes left, four ring entries.\<close>

theorem ring_length_fresh_adds_witness:
  "fresh_adds {} [OpAdd ''a'', OpAdd ''b'', OpRemove ''a'', OpAdd ''c''] \<and>
   collision_free demo_md5 (virtualNodes (NewConsistentHash 2 2))
     (op_node ` set [OpAdd ''a'', OpAdd ''b'', OpRemove ''a'', OpAdd ''c'']) \<and>
   length (hashRing (run_ops demo_md5 [OpAdd ''a'', OpAdd ''b'', OpRemove ''a'', OpAdd ''c'']
     (NewConsistentHash 2 2))) = 4 \<and>
   GetAllNodes (run_ops demo_md5 [OpAdd ''a'', OpAdd ''b'', OpRemove ''a'', OpAdd ''c'']
     (NewConsistentHash 2 2)) = {''b'', ''c''}"
proof -
  have vn: "virtualNodes (NewConsistentHash 2 2) = 2" by (simp add: NewConsistentHash_def)
  from ring_length_fresh_adds[OF demo_fresh demo_cf'] demo_present demo_fresh demo_cf' vn
  show ?thesis by simp
qed

text \<open>
  Counterexample to C8 as stated (after every sequence): \<open>AddNode("a")\<close> twice, with one
  virtual node per node. The ring has two entries and one distinct node, for every
  digest function.
\<close>

theorem ring_length_double_add_counterexample:
  "\<forall>md5. length (hashRing (run_ops md5 [OpAdd ''a'', OpAdd ''a''] (NewConsistentHash 1 2))) = 2 \<and>
     virtualNodes (run_ops md5 [OpAdd ''a'', OpAdd ''a''] (NewConsistentHash 1 2)) = 1 \<and>
     GetAllNodes (run_ops md5 [OpAdd ''a'', OpAdd ''a''] (NewConsistentHash 1 2)) = {''a''}"
  by (simp add: run_ops_def AddNode_def AddNode_step_def NewConsistentHash_def Let_def
      GetAllNodes_def)

section \<open>Lemmas about the file system and the storage node\<close>

lemma map_of_filter_key:
  "map_of (filter (\<lambda>(k, v). P k) xs) k = (if P k then map_of xs k else None)"
  by (induction xs) auto

lemma lookup_put:
  "p \<noteq> [] \<Longrightarrow> lookup (put t p e) q = (if q = p then Some e else lookup t q)"
  by (simp add: lookup_def put_def map_of_filter_key)

lemma Join_data: "Join p [''data''] = p @ [''data'']"
  by (simp add: Join_def clean_step_def)

lemma Join_checksum: "Join p [''checksum''] = p @ [''checksum'']"
  by (simp add: Join_def clean_step_def)

lemma mkdir_fold_lookup:
  "lookup (foldl (\<lambda>t q. if lookup t q = None then put t q Dir else t) t qs) q' =
     (if q' \<in> set qs \<and> lookup t q' = None then Some Dir else lookup t q')"
proof (induction qs arbitrary: t)
  case Nil
  show ?case by simp
next
  case (Cons q qs)
  have ne: "lookup t q = None \<Longrightarrow> q \<noteq> []" by (auto simp: lookup_def)
  show ?case
    by (simp add: Cons.IH) (auto simp: lookup_put ne)
qed

lemma MkdirAll_ok:
  assumes "MkdirAll t p = (None, t1)"
  shows "lookup t1 p = Some Dir"
    and "\<And>q. lookup t1 q = (if q \<in> set (prefixes p) \<and> lookup t q = None then Some Dir else lookup t q)"
proof -
  from assms have nofile: "\<forall>q \<in> set (prefixes p). \<not> is_file (lookup t q)"
    and t1: "t1 = foldl (\<lambda>t q. if lookup t q = None then put t q Dir else t) t (prefixes p)"
    by (auto simp: MkdirAll_def split: if_splits)
  show l: "\<And>q. lookup t1 q = (if q \<in> set (prefixes p) \<and> lookup t q = None then Some Dir else lookup t q)"
    by (simp add: t1 mkdir_fold_lookup)
  have pp: "p \<in> set (prefixes p)" by (simp add: in_set_prefixes)
  with nofile have "\<not> is_file (lookup t p)" by blast
  then have "lookup t p = None \<or> lookup t p = Some Dir"
    by (cases "lookup t p" rule: is_file.cases) simp_all
  with l[of p] pp show "lookup t1 p = Some Dir" by auto
qed

lemma WriteFile_ok:
  assumes "WriteFile t p d = (None, t')"
  shows "p \<noteq> []" and "lookup t (butlast p) = Some Dir"
    and "\<And>q. lookup t' q = (if q = p then Some (File d) else lookup t q)"
proof -
  from assms show ne: "p \<noteq> []" by (auto simp: WriteFile_def)
  from assms ne show "lookup t (butlast p) = Some Dir"
    by (auto simp: WriteFile_def split: option.splits entry.splits)
  from assms ne have "t' = put t p (File d)"
    by (auto simp: WriteFile_def split: option.splits entry.splits)
  with ne show "\<And>q. lookup t' q = (if q = p then Some (File d) else lookup t q)"
    by (simp add: lookup_put)
qed

lemma StoreFile_ok:
  assumes "StoreFile sha n f v d t = (None, t')"
  shows "lookup t' (dataFile n f v) = Some (File d)"
    and "lookup t' (checksumFile n f v) = Some (File (calculateChecksum sha d))"
    and "lookup t' (versionPath n f v) = Some Dir"
proof -
  let ?vp = "versionPath n f v"
  from assms obtain t1 t2 where
    m: "MkdirAll t ?vp = (None, t1)" and
    w1: "WriteFile t1 (?vp @ [''data'']) d = (None, t2)" and
    w2: "WriteFile t2 (?vp @ [''checksum'']) (calculateChecksum sha d) = (None, t')"
    by (auto simp: StoreFile_def Let_def Join_data Join_checksum split: prod.splits option.splits)
  have l2: "\<And>q. lookup t2 q = (if q = ?vp @ [''data''] then Some (File d) else lookup t1 q)"
    using w1 by (rule WriteFile_ok(3))
  have l3: "\<And>q. lookup t' q = (if q = ?vp @ [''checksum''] then Some (File (calculateChecksum sha d)) else lookup t2 q)"
    using w2 by (rule WriteFile_ok(3))
  show "lookup t' (dataFile n f v) = Some (File d)"
    by (simp add: dataFile_def Join_data l3 l2)
  show "lookup t' (checksumFile n f v) = Some (File (calculateChecksum sha d))"
    by (simp add: checksumFile_def Join_checksum l3)
  show "lookup t' ?vp = Some Dir"
    using MkdirAll_ok(1)[OF m] by (simp add: l3 l2)
qed

lemma RetrieveFile_lookup:
  assumes "lookup t (dataFile n f v) = Some (File d)"
    and "lookup t (checksumFile n f v) = Some (File c)"
  shows "RetrieveFile sha n f v t = (if calculateChecksum sha d \<noteq> c then Inl ChecksumMismatch else Inr d)"
  using assms
  by (simp add: RetrieveFile_def ReadFile_def Let_def dataFile_def checksumFile_def)

lemma split_slash_plain: "CHR ''/'' \<notin> set c \<Longrightarrow> split_slash c = [c]"
  by (induction c) auto

lemma Join_append: "Join p (xs @ ys) = Join (Join p xs) ys"
  by (simp add: Join_def)

lemma Join_plain: "plain c \<Longrightarrow> Join p [c] = p @ [c]"
  by (simp add: Join_def plain_def split_slash_plain clean_step_def)

lemma fileDir_plain: "plain f \<Longrightarrow> fileDir n f = path_of (StoragePath n) @ [f]"
  using Join_append[of "[]" "[StoragePath n]" "[f]"]
  by (simp add: fileDir_def path_of_def Join_plain)

lemma versionPath_plain:
  "plain v \<Longrightarrow> versionPath n f v = fileDir n f @ [v]"
  using Join_append[of "[]" "[StoragePath n, f]" "[v]"]
  by (simp add: fileDir_def versionPath_def Join_plain)

lemma lookup_root: "lookup t [] = Some Dir"
  by (simp add: lookup_def)

lemma lookup_filter:
  "lookup (filter (\<lambda>(q, _). P q) t) q = (if q = [] then Some Dir else if P q then lookup t q else None)"
  by (simp add: lookup_def map_of_filter_key)

lemma RemoveAll_lookup:
  "lookup (snd (RemoveAll t p)) q =
     (if q = [] then Some Dir else if prefix p q then None else lookup t q)"
  by (simp add: RemoveAll_def Let_def lookup_filter) (auto simp: lookup_def)

lemma RemoveAll_keys: "set (map fst (snd (RemoveAll t p))) = {q \<in> set (map fst t). \<not> prefix p q}"
  by (auto simp: RemoveAll_def Let_def)

lemma RemoveAll_fst: "p \<noteq> [] \<Longrightarrow> fst (RemoveAll t p) = None"
  by (simp add: RemoveAll_def Let_def)

lemma DeleteFile_cases:
  fixes n :: Node and f v :: string and t :: fs
  assumes "plain v"
  defines "t1 \<equiv> snd (RemoveAll t (versionPath n f v))"
  shows "DeleteFile n f v t =
     (case lookup t1 (fileDir n f) of
        None \<Rightarrow> (Some (PathError ENOENT), t1)
      | Some (File _) \<Rightarrow> (Some (PathError ENOTDIR), t1)
      | Some Dir \<Rightarrow>
          (if children t1 (fileDir n f) = [] then
             (case Remove t1 (fileDir n f) of
                (Some e, t2) \<Rightarrow> (Some (PathError e), t2)
              | (None, t2) \<Rightarrow> (None, t2))
           else (None, t1)))"
proof -
  have ne: "versionPath n f v \<noteq> []" using assms(1) by (simp add: versionPath_plain)
  then have r: "RemoveAll t (versionPath n f v) = (None, t1)"
    by (simp add: t1_def RemoveAll_def Let_def)
  show ?thesis
    by (simp add: DeleteFile_def r Let_def ReadDir_def fileDir_def
        split: option.splits entry.splits)
qed

lemma Remove_lookup:
  "lookup (snd (Remove t p)) q = lookup t q \<or> (q = p \<and> lookup (snd (Remove t p)) q = None)"
  by (auto simp: Remove_def lookup_filter lookup_root split: option.splits entry.splits)

lemma Remove_lookup_other: "q \<noteq> p \<Longrightarrow> lookup (snd (Remove t p)) q = lookup t q"
  using Remove_lookup[of t p q] by auto

lemma Remove_keys: "set (map fst (snd (Remove t p))) \<subseteq> set (map fst t)"
  by (auto simp: Remove_def split: option.splits entry.splits)

lemma Remove_dir_empty:
  "p \<noteq> [] \<Longrightarrow> lookup t p = Some Dir \<Longrightarrow> children t p = [] \<Longrightarrow>
   fst (Remove t p) = None \<and> lookup (snd (Remove t p)) p = None"
  by (simp add: Remove_def lookup_filter)

lemma DeleteFile_lookup_other:
  assumes "plain v" and "\<not> prefix (versionPath n f v) q" and "q \<noteq> fileDir n f"
  shows "lookup (snd (DeleteFile n f v t)) q = lookup t q"
proof -
  let ?t1 = "snd (RemoveAll t (versionPath n f v))"
  have l1: "lookup ?t1 q = lookup t q"
    using assms(2) by (simp add: RemoveAll_lookup lookup_root)
  have "lookup (snd (Remove ?t1 (fileDir n f))) q = lookup ?t1 q"
    using assms(3) by (rule Remove_lookup_other)
  with l1 show ?thesis
    by (simp add: DeleteFile_cases[OF assms(1)] split: option.splits entry.splits prod.splits)
      (metis snd_conv)
qed

lemma DeleteFile_only_removes:
  assumes "q \<noteq> []" and "lookup t q = None"
  shows "lookup (snd (DeleteFile n f v t)) q = None"
proof -
  let ?t1 = "snd (RemoveAll t (versionPath n f v))"
  have l1: "lookup ?t1 q = None" using assms by (simp add: RemoveAll_lookup)
  have l2: "lookup (snd (Remove ?t1 (Join [] [StoragePath n, f]))) q = None"
    using Remove_lookup[of ?t1 "Join [] [StoragePath n, f]" q] l1 by auto
  show ?thesis
    using l1 l2
    by (auto simp: DeleteFile_def Let_def split: prod.splits option.splits sum.splits)
qed

lemma DeleteFile_removes_data:
  "lookup (snd (DeleteFile n f v t)) (dataFile n f v) = None"
proof -
  let ?t1 = "snd (RemoveAll t (versionPath n f v))"
  have ne: "dataFile n f v \<noteq> []" by (simp add: dataFile_def Join_data)
  have "prefix (versionPath n f v) (dataFile n f v)" by (simp add: dataFile_def Join_data)
  then have l1: "lookup ?t1 (dataFile n f v) = None" using ne by (simp add: RemoveAll_lookup)
  have l2: "lookup (snd (Remove ?t1 (Join [] [StoragePath n, f]))) (dataFile n f v) = None"
    using Remove_lookup[of ?t1 "Join [] [StoragePath n, f]" "dataFile n f v"] l1 by auto
  show ?thesis
    using l1 l2
    by (auto simp: DeleteFile_def Let_def split: prod.splits option.splits sum.splits)
qed

lemma MkdirAll_ok_prefix:
  assumes "MkdirAll t p = (None, t1)" and "q \<in> set (prefixes p)"
  shows "lookup t1 q = Some Dir"
proof -
  from assms(1) have "\<not> is_file (lookup t q)"
    using assms(2) by (auto simp: MkdirAll_def split: if_splits)
  then have "lookup t q = None \<or> lookup t q = Some Dir"
    by (cases "lookup t q" rule: is_file.cases) simp_all
  with MkdirAll_ok(2)[OF assms(1), of q] assms(2) show ?thesis by auto
qed

lemma stored_retrieve: "stored sha n f v d t \<Longrightarrow> RetrieveFile sha n f v t = Inr d"
  using RetrieveFile_lookup[of t n f v d "calculateChecksum sha d" sha]
  by (simp add: stored_def)

lemma StoreFile_stored:
  assumes "plain f" "plain v" and ok: "fst (StoreFile sha n f v d t) = None"
  shows "stored sha n f v d (snd (StoreFile sha n f v d t))"
proof -
  let ?vp = "versionPath n f v"
  let ?t' = "snd (StoreFile sha n f v d t)"
  have st: "StoreFile sha n f v d t = (None, ?t')" using ok by (simp add: prod_eq_iff)
  from st obtain t1 t2 where
    m: "MkdirAll t ?vp = (None, t1)" and
    w1: "WriteFile t1 (?vp @ [''data'']) d = (None, t2)" and
    w2: "WriteFile t2 (?vp @ [''checksum'']) (calculateChecksum sha d) = (None, ?t')"
    by (auto simp: StoreFile_def Let_def Join_data Join_checksum split: prod.splits option.splits)
  have l2: "\<And>q. lookup t2 q = (if q = ?vp @ [''data''] then Some (File d) else lookup t1 q)"
    using w1 by (rule WriteFile_ok(3))
  have l3: "\<And>q. lookup ?t' q = (if q = ?vp @ [''checksum''] then Some (File (calculateChecksum sha d)) else lookup t2 q)"
    using w2 by (rule WriteFile_ok(3))
  have vp: "?vp = fileDir n f @ [v]" using assms(2) by (rule versionPath_plain)
  have "fileDir n f \<in> set (prefixes ?vp)" by (simp add: vp in_set_prefixes)
  with m have "lookup t1 (fileDir n f) = Some Dir" by (rule MkdirAll_ok_prefix)
  then have "lookup ?t' (fileDir n f) = Some Dir" by (simp add: l3 l2 vp)
  with StoreFile_ok[OF st] show ?thesis by (simp add: stored_def)
qed

lemma Remove_keys': "Remove t p = (e, t') \<Longrightarrow> fst ` set t' \<subseteq> fst ` set t"
  using Remove_keys[of t p] by simp

lemma DeleteFile_keys:
  "set (map fst (snd (DeleteFile n f v t))) \<subseteq> {q \<in> set (map fst t). \<not> prefix (versionPath n f v) q}"
proof -
  let ?t1 = "snd (RemoveAll t (versionPath n f v))"
  have "fst ` set (snd (DeleteFile n f v t)) \<subseteq> fst ` set ?t1"
    by (auto simp: DeleteFile_def Let_def split: prod.splits option.splits sum.splits
        dest!: Remove_keys')
  then show ?thesis using RemoveAll_keys[of t "versionPath n f v"] by simp
qed

lemma in_keys: "q \<noteq> [] \<Longrightarrow> lookup t q \<noteq> None \<Longrightarrow> q \<in> set (map fst t)"
  by (auto simp: lookup_def dest: map_of_SomeD intro: rev_image_eqI)

lemma DeleteFile_keeps_sibling:
  assumes pl: "plain f" "plain v" "plain v'" and ne: "v \<noteq> v'" and st: "stored sha n f v' d t"
  shows "fst (DeleteFile n f v t) = None" and "stored sha n f v' d (snd (DeleteFile n f v t))"
proof -
  let ?D = "fileDir n f"
  let ?t1 = "snd (RemoveAll t (versionPath n f v))"
  have vp: "versionPath n f v = ?D @ [v]" "versionPath n f v' = ?D @ [v']"
    using pl by (simp_all add: versionPath_plain)
  have keep: "\<And>q. \<not> prefix (versionPath n f v) q \<Longrightarrow> lookup ?t1 q = lookup t q"
    by (simp add: RemoveAll_lookup lookup_root)
  have np: "\<not> prefix (versionPath n f v) ?D" "\<not> prefix (versionPath n f v) (versionPath n f v')"
    "\<not> prefix (versionPath n f v) (dataFile n f v')"
    "\<not> prefix (versionPath n f v) (checksumFile n f v')"
    using ne by (simp_all add: dataFile_def checksumFile_def Join_data Join_checksum vp)
  have st1: "stored sha n f v' d ?t1"
    using st unfolding stored_def by (simp add: keep[OF np(1)] keep[OF np(2)] keep[OF np(3)] keep[OF np(4)])
  have k: "lookup ?t1 (?D @ [v']) = Some Dir" using st1 by (simp add: stored_def vp)
  have "?D @ [v'] \<in> set (map fst ?t1)"
    using k by (intro in_keys) simp_all
  then have "?D @ [v'] \<in> set (children ?t1 ?D)" by (simp add: children_def)
  then have ch: "children ?t1 ?D \<noteq> []" by auto
  have dir: "lookup ?t1 ?D = Some Dir" using st1 by (simp add: stored_def)
  have "DeleteFile n f v t = (None, ?t1)"
    by (simp add: DeleteFile_cases[OF pl(2)] dir ch)
  with st1 show "fst (DeleteFile n f v t) = None"
    and "stored sha n f v' d (snd (DeleteFile n f v t))" by simp_all
qed

lemma delete_versions_all:
  assumes "plain f"
  shows "\<forall>v \<in> set vs. plain v \<Longrightarrow> \<not> is_file (lookup t (fileDir n f)) \<Longrightarrow>
     only_versions n f vs t \<Longrightarrow> (vs = [] \<longrightarrow> lookup t (fileDir n f) = None) \<Longrightarrow>
     prefix (fileDir n f) q \<Longrightarrow> lookup (delete_versions n f vs t) q = None"
proof (induction vs arbitrary: t)
  case Nil
  have D: "fileDir n f \<noteq> []" using assms by (simp add: fileDir_plain)
  show ?case
  proof (cases "q = fileDir n f")
    case True
    with Nil.prems show ?thesis by (simp add: delete_versions_def)
  next
    case False
    with Nil.prems(5) have sp: "strict_prefix (fileDir n f) q" by (simp add: strict_prefix_def)
    then have "q \<noteq> []" by auto
    show ?thesis
    proof (rule ccontr)
      assume "lookup (delete_versions n f [] t) q \<noteq> None"
      then have "q \<in> set (map fst t)" using \<open>q \<noteq> []\<close> by (intro in_keys) (simp_all add: delete_versions_def)
      with Nil.prems(3) sp show False by (auto simp: only_versions_def)
    qed
  qed
next
  case (Cons v vs)
  let ?D = "fileDir n f"
  let ?t1 = "snd (RemoveAll t (versionPath n f v))"
  let ?t' = "snd (DeleteFile n f v t)"
  have D: "?D \<noteq> []" using assms by (simp add: fileDir_plain)
  have pv: "plain v" using Cons.prems(1) by simp
  have vp: "versionPath n f v = ?D @ [v]" using pv by (rule versionPath_plain)
  have keys: "set (map fst ?t') \<subseteq> {q \<in> set (map fst t). \<not> prefix (?D @ [v]) q}"
    using DeleteFile_keys[of n f v t] by (simp add: vp)
  have keys1: "set (map fst ?t1) = {q \<in> set (map fst t). \<not> prefix (?D @ [v]) q}"
    using RemoveAll_keys[of t "versionPath n f v"] by (simp add: vp)
  have ov_gen: "\<And>u. set (map fst u) \<subseteq> {q \<in> set (map fst t). \<not> prefix (?D @ [v]) q} \<Longrightarrow>
      only_versions n f vs u"
  proof -
    fix u :: fs assume sub: "set (map fst u) \<subseteq> {q \<in> set (map fst t). \<not> prefix (?D @ [v]) q}"
    show "only_versions n f vs u"
      unfolding only_versions_def
    proof (intro ballI impI)
      fix q' assume q': "q' \<in> set (map fst u)" and sp: "strict_prefix ?D q'"
      from q' sub have a: "q' \<in> set (map fst t)" and b: "\<not> prefix (?D @ [v]) q'" by auto
      from Cons.prems(3) a sp obtain v0 where "v0 \<in> set (v # vs)" "prefix (?D @ [v0]) q'"
        by (auto simp: only_versions_def)
      with b show "\<exists>v \<in> set vs. prefix (?D @ [v]) q'" by auto
    qed
  qed
  have ov: "only_versions n f vs ?t'" using keys by (rule ov_gen)
  have ov1: "only_versions n f vs ?t1" using keys1 by (intro ov_gen) simp
  have l1: "lookup ?t1 ?D = lookup t ?D"
    by (simp add: RemoveAll_lookup vp D)
  have nf1: "\<not> is_file (lookup ?t1 ?D)" using Cons.prems(2) l1 by simp
  have cases: "lookup ?t' ?D = lookup ?t1 ?D \<or> lookup ?t' ?D = None"
    using Remove_lookup[of ?t1 ?D ?D]
    by (auto simp: DeleteFile_cases[OF pv] split: option.splits entry.splits prod.splits)
  have nf: "\<not> is_file (lookup ?t' ?D)" using cases nf1 by auto
  have last: "vs = [] \<longrightarrow> lookup ?t' ?D = None"
  proof
    assume e: "vs = []"
    have "children ?t1 ?D = []"
    proof (rule ccontr)
      assume "children ?t1 ?D \<noteq> []"
      then have "hd (children ?t1 ?D) \<in> set (children ?t1 ?D)" by (rule hd_in_set)
      then obtain c where "c \<in> set (children ?t1 ?D)" ..
      then have c: "c \<in> set (map fst ?t1)" "c \<noteq> []" "butlast c = ?D" by (auto simp: children_def)
      then have "c = ?D @ [last c]" by (metis append_butlast_last_id)
      then have "strict_prefix ?D c" by (metis strict_prefixI' )
      with ov1 c(1) e show False by (auto simp: only_versions_def)
    qed
    show "lookup ?t' ?D = None"
    proof (cases "lookup ?t1 ?D")
      case None
      then show ?thesis by (simp add: DeleteFile_cases[OF pv])
    next
      case (Some a)
      with nf1 have dir: "lookup ?t1 ?D = Some Dir" by (cases a) simp_all
      from Remove_dir_empty[OF D dir \<open>children ?t1 ?D = []\<close>]
      show ?thesis
        by (simp add: DeleteFile_cases[OF pv] dir \<open>children ?t1 ?D = []\<close> split: prod.splits option.splits)
          (metis fst_conv snd_conv option.distinct(1))
    qed
  qed
  have "lookup (delete_versions n f vs ?t') q = None"
    using Cons.prems(1,5) nf ov last by (intro Cons.IH) simp_all
  then show ?case by (simp add: delete_versions_def)
qed

lemma hex_digit_inj:
  assumes "i < 16" "j < 16" "''0123456789abcdef'' ! i = ''0123456789abcdef'' ! j"
  shows "i = j"
proof -
  have "distinct ''0123456789abcdef''" by simp
  moreover have "i < length ''0123456789abcdef''" "j < length ''0123456789abcdef''"
    using assms(1,2) by simp_all
  ultimately show ?thesis using assms(3) by (simp only: nth_eq_iff_index_eq)
qed

lemma hex_byte_inj:
  assumes "hex_byte c = hex_byte c'"
  shows "c = c'"
proof -
  have lt: "(of_char c :: nat) < 256" "(of_char c' :: nat) < 256"
    by (simp_all add: of_char_def)
  then have d: "(of_char c :: nat) div 16 < 16" "(of_char c' :: nat) div 16 < 16"
    by (simp_all add: less_mult_imp_div_less)
  have m: "(of_char c :: nat) mod 16 < 16" "(of_char c' :: nat) mod 16 < 16" by simp_all
  from assms have
    "''0123456789abcdef'' ! ((of_char c :: nat) div 16) = ''0123456789abcdef'' ! ((of_char c' :: nat) div 16)"
    "''0123456789abcdef'' ! ((of_char c :: nat) mod 16) = ''0123456789abcdef'' ! ((of_char c' :: nat) mod 16)"
    by (simp_all add: hex_byte_def)
  then have "(of_char c :: nat) div 16 = of_char c' div 16" "(of_char c :: nat) mod 16 = of_char c' mod 16"
    using d m by (auto intro: hex_digit_inj)
  then have "(of_char c :: nat) = of_char c'"
    by (metis div_mult_mod_eq)
  then show ?thesis by simp
qed

lemma EncodeToString_inj: "EncodeToString xs = EncodeToString ys \<Longrightarrow> xs = ys"
proof (induction xs arbitrary: ys)
  case Nil
  then show ?case by (cases ys) (simp_all add: EncodeToString_def hex_byte_def)
next
  case (Cons x xs)
  show ?case
  proof (cases ys)
    case Nil
    with Cons.prems show ?thesis by (simp add: EncodeToString_def hex_byte_def)
  next
    case (Cons y ys')
    have len: "length (hex_byte x) = length (hex_byte y)" by (simp add: hex_byte_def)
    from Cons.prems Cons have "hex_byte x @ EncodeToString xs = hex_byte y @ EncodeToString ys'"
      by (simp add: EncodeToString_def)
    with len have "hex_byte x = hex_byte y" "EncodeToString xs = EncodeToString ys'"
      by simp_all
    with Cons.IH hex_byte_inj Cons show ?thesis by blast
  qed
qed

lemma calculateChecksum_inject:
  "calculateChecksum sha d = calculateChecksum sha d' \<longleftrightarrow> sha d = sha d'"
  by (auto simp: calculateChecksum_def dest: EncodeToString_inj)

text \<open>
  When \<open>StoreFile\<close> succeeds, in the file-system model: exactly when no regular file lies
  on the path of the version directory and neither the data file nor the checksum file
  is a directory. The bytes to store and the digest function play no part in it.
\<close>

lemma WriteFile_succeeds:
  assumes "p \<noteq> []" and "lookup t (butlast p) = Some Dir"
  shows "WriteFile t p d =
           (if lookup t p = Some Dir then (Some EISDIR, t) else (None, put t p (File d)))"
  using assms by (simp add: WriteFile_def split: option.splits entry.splits)

lemma StoreFile_succeeds:
  "fst (StoreFile sha n f v d t) = None \<longleftrightarrow>
     (\<forall>q \<in> set (prefixes (versionPath n f v)). \<not> is_file (lookup t q)) \<and>
     lookup t (dataFile n f v) \<noteq> Some Dir \<and>
     lookup t (checksumFile n f v) \<noteq> Some Dir"
proof (cases "\<exists>q \<in> set (prefixes (versionPath n f v)). is_file (lookup t q)")
  case True
  then have "MkdirAll t (versionPath n f v) = (Some ENOTDIR, t)" by (simp add: MkdirAll_def)
  then have "fst (StoreFile sha n f v d t) \<noteq> None" by (simp add: StoreFile_def)
  with True show ?thesis by blast
next
  case False
  let ?vp = "versionPath n f v"
  obtain t1 where m: "MkdirAll t ?vp = (None, t1)"
    using False by (simp add: MkdirAll_def)
  have l1: "\<And>q. lookup t1 q =
      (if q \<in> set (prefixes ?vp) \<and> lookup t q = None then Some Dir else lookup t q)"
    using m by (rule MkdirAll_ok(2))
  have vp1: "lookup t1 ?vp = Some Dir" using m by (rule MkdirAll_ok(1))
  have d1: "lookup t1 (?vp @ [''data'']) = lookup t (?vp @ [''data''])"
    by (simp add: l1 in_set_prefixes)
  have c1: "lookup t1 (?vp @ [''checksum'']) = lookup t (?vp @ [''checksum''])"
    by (simp add: l1 in_set_prefixes)
  have w1: "WriteFile t1 (?vp @ [''data'']) d =
      (if lookup t (?vp @ [''data'']) = Some Dir then (Some EISDIR, t1)
       else (None, put t1 (?vp @ [''data'']) (File d)))"
    using WriteFile_succeeds[of "?vp @ [''data'']" t1 d] vp1 d1 by simp
  let ?t2 = "put t1 (?vp @ [''data'']) (File d)"
  have l2: "\<And>q. lookup ?t2 q = (if q = ?vp @ [''data''] then Some (File d) else lookup t1 q)"
    by (simp add: lookup_put)
  have w2: "WriteFile ?t2 (?vp @ [''checksum'']) c =
      (if lookup t (?vp @ [''checksum'']) = Some Dir then (Some EISDIR, ?t2)
       else (None, put ?t2 (?vp @ [''checksum'']) (File c)))" for c
    using WriteFile_succeeds[of "?vp @ [''checksum'']" ?t2 c] vp1 c1 by (simp add: l2)
  have "fst (StoreFile sha n f v d t) = None \<longleftrightarrow>
     lookup t (?vp @ [''data'']) \<noteq> Some Dir \<and> lookup t (?vp @ [''checksum'']) \<noteq> Some Dir"
    by (simp add: StoreFile_def Let_def Join_data Join_checksum m w1 w2)
  with False show ?thesis
    by (simp add: dataFile_def checksumFile_def Join_data Join_checksum)
qed

section \<open>Claims about the storage node\<close>

text \<open>
  C2. For every node, file identifier, version identifier, byte sequence (the empty one
  included), digest function and state of the file system: when \<open>StoreFile\<close> returns no
  error, \<open>RetrieveFile\<close> with the same identifiers on the resulting state returns the same
  bytes. Whether \<open>StoreFile\<close> returns an error does not depend on the bytes (lemma
  \<open>StoreFile_succeeds\<close>).
\<close>

theorem store_retrieve_roundtrip:
  assumes "fst (StoreFile sha n f v d t) = None"
  shows "RetrieveFile sha n f v (snd (StoreFile sha n f v d t)) = Inr d"
proof -
  have "StoreFile sha n f v d t = (None, snd (StoreFile sha n f v d t))"
    using assms by (simp add: prod_eq_iff)
  from RetrieveFile_lookup[OF StoreFile_ok(1,2)[OF this]] show ?thesis by simp
qed

text \<open>
  Witness for C2, three stores that succeed and are read back: \<open>hello\<close> on the file
  system that \<open>NewNode\<close> leaves (the storage directory exists), then \<open>Hello, World!\<close>
  under the same identifiers, which replaces the first bytes, and the empty byte
  sequence on an empty file system.
\<close>

theorem store_retrieve_roundtrip_witness:
  "fst (StoreFile demo_sha node1 ''file-1'' ''version-1'' ''hello''
         (snd (NewNode ''node-1'' ''/data/node-1'' []))) = None \<and>
   RetrieveFile demo_sha node1 ''file-1'' ''version-1''
     (snd (StoreFile demo_sha node1 ''file-1'' ''version-1'' ''hello''
         (snd (NewNode ''node-1'' ''/data/node-1'' [])))) = Inr ''hello'' \<and>
   fst (StoreFile demo_sha node1 ''file-1'' ''version-1'' ''Hello, World!''
         (snd (StoreFile demo_sha node1 ''file-1'' ''version-1'' ''hello''
            (snd (NewNode ''node-1'' ''/data/node-1'' []))))) = None \<and>
   RetrieveFile demo_sha node1 ''file-1'' ''version-1''
     (snd (StoreFile demo_sha node1 ''file-1'' ''version-1'' ''Hello, World!''
         (snd (StoreFile demo_sha node1 ''file-1'' ''version-1'' ''hello''
            (snd (NewNode ''node-1'' ''/data/node-1'' [])))))) = Inr ''Hello, World!'' \<and>
   fst (StoreFile demo_sha node1 ''file-1'' ''version-1'' '''' []) = None \<and>
   RetrieveFile demo_sha node1 ''file-1'' ''version-1''
     (snd (StoreFile demo_sha node1 ''file-1'' ''version-1'' '''' [])) = Inr ''''"
proof -
  let ?t0 = "snd (NewNode ''node-1'' ''/data/node-1'' [])"
  let ?t1 = "snd (StoreFile demo_sha node1 ''file-1'' ''version-1'' ''hello'' ?t0)"
  have h1: "fst (StoreFile demo_sha node1 ''file-1'' ''version-1'' ''hello'' ?t0) = None"
    by code_simp
  have h2: "fst (StoreFile demo_sha node1 ''file-1'' ''version-1'' ''Hello, World!'' ?t1) = None"
    by code_simp
  have h3: "fst (StoreFile demo_sha node1 ''file-1'' ''version-1'' '''' []) = None"
    by code_simp
  from store_retrieve_roundtrip[OF h1] store_retrieve_roundtrip[OF h2]
    store_retrieve_roundtrip[OF h3] h1 h2 h3
  show ?thesis by simp
qed

text \<open>
  C3. After a successful \<open>StoreFile\<close> of \<open>d\<close>, in every state of the file system whose data
  file holds other bytes \<open>d'\<close> while the checksum file is as \<open>StoreFile\<close> left it,
  \<open>RetrieveFile\<close> fails with the checksum-mismatch error and returns no bytes. The digest
  function is a parameter; the altered bytes are those whose digest differs from the
  digest of \<open>d\<close> (for SHA-256, every alteration anyone can exhibit).
\<close>

theorem altered_data_detected:
  assumes "fst (StoreFile sha n f v d t) = None"
    and "lookup t2 (dataFile n f v) = Some (File d')"
    and "lookup t2 (checksumFile n f v) =
         lookup (snd (StoreFile sha n f v d t)) (checksumFile n f v)"
    and "sha d' \<noteq> sha d"
  shows "RetrieveFile sha n f v t2 = Inl ChecksumMismatch"
proof -
  have st: "StoreFile sha n f v d t = (None, snd (StoreFile sha n f v d t))"
    using assms(1) by (simp add: prod_eq_iff)
  have "lookup t2 (checksumFile n f v) = Some (File (calculateChecksum sha d))"
    using assms(3) StoreFile_ok(2)[OF st] by simp
  from RetrieveFile_lookup[OF assms(2) this] assms(4) show ?thesis
    by (simp add: calculateChecksum_inject)
qed

text \<open>
  Witness for C3, as the test of the repository does it: the data file is overwritten
  with \<open>os.WriteFile\<close> after the store.
\<close>

theorem altered_data_detected_witness:
  "fst (StoreFile demo_sha node1 ''file-2'' ''version-1'' ''Data with checksum'' []) = None \<and>
   lookup (snd (WriteFile
             (snd (StoreFile demo_sha node1 ''file-2'' ''version-1'' ''Data with checksum'' []))
             (dataFile node1 ''file-2'' ''version-1'') ''Corrupted data''))
      (dataFile node1 ''file-2'' ''version-1'') = Some (File ''Corrupted data'') \<and>
   demo_sha ''Corrupted data'' \<noteq> demo_sha ''Data with checksum'' \<and>
   RetrieveFile demo_sha node1 ''file-2'' ''version-1''
     (snd (WriteFile
             (snd (StoreFile demo_sha node1 ''file-2'' ''version-1'' ''Data with checksum'' []))
             (dataFile node1 ''file-2'' ''version-1'') ''Corrupted data'')) =
     Inl ChecksumMismatch"
proof -
  let ?t1 = "snd (StoreFile demo_sha node1 ''file-2'' ''version-1'' ''Data with checksum'' [])"
  let ?t2 = "snd (WriteFile ?t1 (dataFile node1 ''file-2'' ''version-1'') ''Corrupted data'')"
  have h1: "fst (StoreFile demo_sha node1 ''file-2'' ''version-1'' ''Data with checksum'' []) = None"
    by code_simp
  have h2: "lookup ?t2 (dataFile node1 ''file-2'' ''version-1'') = Some (File ''Corrupted data'')"
    by code_simp
  have h3: "lookup ?t2 (checksumFile node1 ''file-2'' ''version-1'') =
            lookup ?t1 (checksumFile node1 ''file-2'' ''version-1'')"
    by code_simp
  have h4: "demo_sha ''Corrupted data'' \<noteq> demo_sha ''Data with checksum''"
    by code_simp
  from altered_data_detected[OF h1 h2 h3 h4] h1 h2 h4 show ?thesis by simp
qed

text \<open>
  C9, as amended: for identifiers that are single path components (\<open>plain\<close>: not empty,
  not \<open>.\<close> or \<open>..\<close>, without a separator). First part: when another version \<open>v'\<close> of the
  file is stored on the node, deleting \<open>(f, v)\<close> twice returns no error either time (and
  cannot panic: \<open>DeleteFile\<close> is total, every failure is an error value), and \<open>v'\<close> is
  retrieved unchanged afterwards. Second part: when the directory of the file holds
  nothing but the directories of the versions \<open>vs\<close>, deleting these versions one at a
  time leaves nothing at or below the directory of the file.
\<close>

theorem delete_twice_and_delete_all:
  assumes "plain f"
  shows "(plain v \<and> plain v' \<and> v \<noteq> v' \<and> stored sha n f v' d t \<longrightarrow>
            fst (DeleteFile n f v t) = None \<and>
            fst (DeleteFile n f v (snd (DeleteFile n f v t))) = None \<and>
            RetrieveFile sha n f v' (snd (DeleteFile n f v (snd (DeleteFile n f v t)))) = Inr d) \<and>
         ((\<forall>v \<in> set vs. plain v) \<and> vs \<noteq> [] \<and> \<not> is_file (lookup t (fileDir n f)) \<and>
          only_versions n f vs t \<longrightarrow>
            (\<forall>q. prefix (fileDir n f) q \<longrightarrow> lookup (delete_versions n f vs t) q = None))"
proof (intro conjI impI allI)
  assume h: "plain v \<and> plain v' \<and> v \<noteq> v' \<and> stored sha n f v' d t"
  then have pl: "plain v" "plain v'" "v \<noteq> v'" and st: "stored sha n f v' d t" by simp_all
  show d1: "fst (DeleteFile n f v t) = None"
    using assms pl st by (rule DeleteFile_keeps_sibling(1))
  have st1: "stored sha n f v' d (snd (DeleteFile n f v t))"
    using assms pl st by (rule DeleteFile_keeps_sibling(2))
  show "fst (DeleteFile n f v (snd (DeleteFile n f v t))) = None"
    using assms pl st1 by (rule DeleteFile_keeps_sibling(1))
  have "stored sha n f v' d (snd (DeleteFile n f v (snd (DeleteFile n f v t))))"
    using assms pl st1 by (rule DeleteFile_keeps_sibling(2))
  then show "RetrieveFile sha n f v' (snd (DeleteFile n f v (snd (DeleteFile n f v t)))) = Inr d"
    by (rule stored_retrieve)
next
  fix q
  assume h: "(\<forall>v \<in> set vs. plain v) \<and> vs \<noteq> [] \<and> \<not> is_file (lookup t (fileDir n f)) \<and>
          only_versions n f vs t"
    and q: "prefix (fileDir n f) q"
  from h q show "lookup (delete_versions n f vs t) q = None"
    by (intro delete_versions_all[OF assms]) simp_all
qed

text \<open>
  Witness for C9: versions \<open>v1\<close> and \<open>v2\<close> of one file stored on an empty file system, as
  in the tests of the repository.
\<close>

lemma demo_two_versions:
  "plain ''file-2''" "plain ''v1''" "plain ''v2''"
  "stored demo_sha node1 ''file-2'' ''v2'' ''Version 2''
     (snd (StoreFile demo_sha node1 ''file-2'' ''v2'' ''Version 2''
        (snd (StoreFile demo_sha node1 ''file-2'' ''v1'' ''Version 1'' []))))"
  "\<not> is_file (lookup (snd (StoreFile demo_sha node1 ''file-2'' ''v2'' ''Version 2''
        (snd (StoreFile demo_sha node1 ''file-2'' ''v1'' ''Version 1'' []))))
      (fileDir node1 ''file-2''))"
  "only_versions node1 ''file-2'' [''v1'', ''v2'']
     (snd (StoreFile demo_sha node1 ''file-2'' ''v2'' ''Version 2''
        (snd (StoreFile demo_sha node1 ''file-2'' ''v1'' ''Version 1'' []))))"
  by code_simp+

theorem delete_twice_and_delete_all_witness:
  "plain ''file-2'' \<and> plain ''v1'' \<and> plain ''v2'' \<and> ''v1'' \<noteq> ''v2'' \<and>
   stored demo_sha node1 ''file-2'' ''v2'' ''Version 2''
     (snd (StoreFile demo_sha node1 ''file-2'' ''v2'' ''Version 2''
        (snd (StoreFile demo_sha node1 ''file-2'' ''v1'' ''Version 1'' [])))) \<and>
   RetrieveFile demo_sha node1 ''file-2'' ''v2''
     (snd (DeleteFile node1 ''file-2'' ''v1'' (snd (DeleteFile node1 ''file-2'' ''v1''
        (snd (StoreFile demo_sha node1 ''file-2'' ''v2'' ''Version 2''
           (snd (StoreFile demo_sha node1 ''file-2'' ''v1'' ''Version 1'' [])))))))) =
     Inr ''Version 2'' \<and>
   only_versions node1 ''file-2'' [''v1'', ''v2'']
     (snd (StoreFile demo_sha node1 ''file-2'' ''v2'' ''Version 2''
        (snd (StoreFile demo_sha node1 ''file-2'' ''v1'' ''Version 1'' [])))) \<and>
   lookup (delete_versions node1 ''file-2'' [''v1'', ''v2'']
     (snd (StoreFile demo_sha node1 ''file-2'' ''v2'' ''Version 2''
        (snd (StoreFile demo_sha node1 ''file-2'' ''v1'' ''Version 1'' [])))))
     (fileDir node1 ''file-2'') = None"
proof -
  let ?t = "snd (StoreFile demo_sha node1 ''file-2'' ''v2'' ''Version 2''
        (snd (StoreFile demo_sha node1 ''file-2'' ''v1'' ''Version 1'' [])))"
  note inst = delete_twice_and_delete_all[OF demo_two_versions(1),
      of "''v1''" "''v2''" demo_sha node1 "''Version 2''" ?t "[''v1'', ''v2'']"]
  have ne: "''v1'' \<noteq> ''v2''" by simp
  have all: "\<forall>v \<in> set [''v1'', ''v2'']. plain v" using demo_two_versions(2,3) by simp
  from inst demo_two_versions ne all show ?thesis by simp
qed

text \<open>
  Counterexample to C9 as stated (for every stored version): the versions \<open>v1\<close> and
  \<open>v1/x\<close> of one file. Both stores succeed and \<open>v1/x\<close> is retrievable; its directory
  lies inside the directory of \<open>v1\<close>, so deleting \<open>v1\<close> (twice) removes it and \<open>v1/x\<close> is
  no longer found.
\<close>

theorem delete_nested_version_counterexample:
  "RetrieveFile demo_sha node1 ''file-1'' ''v1/x''
     (snd (StoreFile demo_sha node1 ''file-1'' ''v1/x'' ''B''
        (snd (StoreFile demo_sha node1 ''file-1'' ''v1'' ''A'' [])))) = Inr ''B'' \<and>
   ''v1'' \<noteq> ''v1/x'' \<and>
   RetrieveFile demo_sha node1 ''file-1'' ''v1/x''
     (snd (DeleteFile node1 ''file-1'' ''v1'' (snd (DeleteFile node1 ''file-1'' ''v1''
        (snd (StoreFile demo_sha node1 ''file-1'' ''v1/x'' ''B''
           (snd (StoreFile demo_sha node1 ''file-1'' ''v1'' ''A'' [])))))))) =
     Inl (PathError ENOENT)"
  by code_simp

section \<open>Lemmas about the file manager\<close>

lemma store_loop_registered:
  "set (fst (store_loop sha fm f v d ns acc t)) \<subseteq> set acc \<union> (set ns \<inter> dom (fm_nodes fm))"
proof (induction ns arbitrary: acc t)
  case Nil
  show ?case by simp
next
  case (Cons n ns)
  show ?case
  proof (cases "fm_nodes fm n")
    case None
    with Cons.IH[of acc t] show ?thesis by auto
  next
    case (Some node)
    obtain e t' where st: "StoreFile sha node f v d t = (e, t')"
      by (cases "StoreFile sha node f v d t")
    show ?thesis
    proof (cases e)
      case None
      with Some st Cons.IH[of "acc @ [n]" t'] show ?thesis by auto
    next
      case (Some err)
      with \<open>fm_nodes fm n = Some node\<close> st Cons.IH[of acc t'] show ?thesis by auto
    qed
  qed
qed

lemma cleanup_as_fold:
  "set S \<subseteq> dom (fm_nodes fm) \<Longrightarrow>
   cleanupFailedUpload fm f v S t =
     foldl (\<lambda>t n. snd (DeleteFile (the (fm_nodes fm n)) f v t)) t S"
  by (induction S arbitrary: t) auto

lemma cleanup_only_removes:
  "q \<noteq> [] \<Longrightarrow> lookup t q = None \<Longrightarrow> lookup (cleanupFailedUpload fm f v S t) q = None"
  by (induction S arbitrary: t) (auto simp: DeleteFile_only_removes split: option.splits)

lemma cleanup_removes_data:
  "n \<in> set S \<Longrightarrow> fm_nodes fm n = Some node \<Longrightarrow>
   lookup (cleanupFailedUpload fm f v S t) (dataFile node f v) = None"
proof (induction S arbitrary: t)
  case Nil
  then show ?case by simp
next
  case (Cons s S)
  have ne: "dataFile node f v \<noteq> []" by (simp add: dataFile_def Join_data)
  show ?case
  proof (cases "s = n")
    case True
    have "lookup (snd (DeleteFile node f v t)) (dataFile node f v) = None"
      by (rule DeleteFile_removes_data)
    with ne have "lookup (cleanupFailedUpload fm f v S (snd (DeleteFile node f v t))) (dataFile node f v) = None"
      by (rule cleanup_only_removes)
    with True Cons.prems(2) show ?thesis by simp
  next
    case False
    with Cons.prems have "n \<in> set S" by simp
    with Cons.IH Cons.prems(2) show ?thesis by (simp split: option.splits)
  qed
qed

lemma retrieve_absent:
  "lookup t (dataFile n f v) = None \<Longrightarrow> RetrieveFile sha n f v t = Inl (PathError ENOENT)"
  by (simp add: RetrieveFile_def ReadFile_def dataFile_def Let_def)

lemma first_success_simps:
  "first_success l [] = Inl l"
  "first_success l (Inr d # as) = Inr d"
  "first_success l (Inl e # as) = first_success (Some e) as"
proof -
  show "first_success l [] = Inl l" by (simp add: first_success_def)
  show "first_success l (Inr d # as) = Inr d" by (simp add: first_success_def)
  have dw: "dropWhile isl (Inl e # as) = dropWhile isl as" by simp
  have la: "(if Inl e # as = [] then l else Some (projl (last (Inl e # as)))) =
            (if as = [] then Some e else Some (projl (last as)))" by simp
  show "first_success l (Inl e # as) = first_success (Some e) as"
    by (simp only: first_success_def dw la)
qed

lemma retrieve_loop_spec:
  "retrieve_loop sha fm f vid ns lastErr t =
     first_success lastErr (map (\<lambda>node. RetrieveFile sha node f vid t)
                            (List.map_filter (fm_nodes fm) ns))"
proof (induction ns arbitrary: lastErr)
  case Nil
  show ?case by (simp add: map_filter_simps first_success_simps)
next
  case (Cons n ns)
  show ?case
  proof (cases "fm_nodes fm n")
    case None
    then show ?thesis by (simp add: map_filter_simps Cons.IH)
  next
    case (Some node)
    show ?thesis
    proof (cases "RetrieveFile sha node f vid t")
      case (Inr d)
      with Some show ?thesis by (simp add: map_filter_simps first_success_simps)
    next
      case (Inl e)
      with Some show ?thesis
        by (simp add: map_filter_simps Cons.IH[of "Some e"] first_success_simps)
    qed
  qed
qed

lemma find_version_filter:
  "find_version vs vid =
     (case filter (\<lambda>v. VersionID v = vid) vs of [] \<Rightarrow> None | v # _ \<Rightarrow> Some v)"
  by (induction vs) auto

lemma retrieve_loop_download_of:
  "(case retrieve_loop sha fm f (VersionID tv) (Nodes tv) None t of
      Inr d \<Rightarrow> Inr (d, meta) | Inl lastErr \<Rightarrow> Inl (RetrieveFailed lastErr)) =
   download_of sha fm f tv meta t"
  by (simp add: retrieve_loop_spec download_of_def failover_read_def Let_def
      split: sum.splits)

section \<open>Claims about the file manager\<close>

text \<open>
  C4. Let \<open>S\<close> be the nodes on which the store loop of \<open>UploadFile\<close> succeeded, in order,
  and let \<open>S\<close> be non-empty. When \<open>SaveMetadata\<close> then returns an error, \<open>UploadFile\<close> returns
  that error and no record; the file system it leaves is the one after the store loop
  with \<open>DeleteFile(fileID, versionID)\<close> run on each node of \<open>S\<close> in turn; every node of \<open>S\<close>
  is in the registry; and afterwards no node of \<open>S\<close> holds the data of the version any
  more (a \<open>Retrieve\<close> finds nothing).
\<close>

theorem upload_save_failure_cleanup:
  fixes md5 sha :: digest and fm :: FileManager and fileID versionID data :: string
    and t t1 :: fs and S :: "string list"
  defines "S \<equiv> fst (store_loop sha fm fileID versionID data
                        (GetNodes md5 (fm_hashRing fm) fileID) [] t)"
    and "t1 \<equiv> snd (store_loop sha fm fileID versionID data
                       (GetNodes md5 (fm_hashRing fm) fileID) [] t)"
  assumes "S \<noteq> []"
    and "SaveMetadata store m
           (newFileMetadata fileID versionID filename data contentType S now1 now2 now3) =
         (Some err, meta', m')"
  shows "UploadFile md5 sha store fm fileID versionID now1 now2 now3 filename data contentType
           t m =
           (Inl err,
            foldl (\<lambda>t n. snd (DeleteFile (the (fm_nodes fm n)) fileID versionID t)) t1 S,
            m') \<and>
         set S \<subseteq> dom (fm_nodes fm) \<and>
         (\<forall>n \<in> set S.
            RetrieveFile sha (the (fm_nodes fm n)) fileID versionID
              (foldl (\<lambda>t n. snd (DeleteFile (the (fm_nodes fm n)) fileID versionID t)) t1 S) =
            Inl (PathError ENOENT))"
proof -
  let ?ns = "GetNodes md5 (fm_hashRing fm) fileID"
  have reg: "set S \<subseteq> dom (fm_nodes fm)"
    using store_loop_registered[of sha fm fileID versionID data ?ns "[]" t] by (auto simp: S_def)
  have ns: "?ns \<noteq> []"
  proof
    assume "?ns = []"
    then have "S = []" by (simp add: S_def)
    with assms(3) show False by simp
  qed
  have sl: "store_loop sha fm fileID versionID data ?ns [] t = (S, t1)"
    by (simp add: S_def t1_def)
  have up: "UploadFile md5 sha store fm fileID versionID now1 now2 now3 filename data
      contentType t m = (Inl err, cleanupFailedUpload fm fileID versionID S t1, m')"
    using ns assms(3,4) by (simp add: UploadFile_def Let_def sl)
  have fold: "cleanupFailedUpload fm fileID versionID S t1 =
      foldl (\<lambda>t n. snd (DeleteFile (the (fm_nodes fm n)) fileID versionID t)) t1 S"
    using reg by (rule cleanup_as_fold)
  have gone: "\<forall>n \<in> set S. RetrieveFile sha (the (fm_nodes fm n)) fileID versionID
        (cleanupFailedUpload fm fileID versionID S t1) = Inl (PathError ENOENT)"
  proof
    fix n assume n: "n \<in> set S"
    with reg obtain node where node: "fm_nodes fm n = Some node" by auto
    from cleanup_removes_data[OF n node]
    have "lookup (cleanupFailedUpload fm fileID versionID S t1)
            (dataFile node fileID versionID) = None" .
    then show "RetrieveFile sha (the (fm_nodes fm n)) fileID versionID
        (cleanupFailedUpload fm fileID versionID S t1) = Inl (PathError ENOENT)"
      using node by (simp add: retrieve_absent)
  qed
  from up fold reg gone show ?thesis by simp
qed

text \<open>
  Witness for C4: two registered nodes, both stores succeed, the metadata store fails.
\<close>

theorem upload_save_failure_cleanup_witness:
  "fst (store_loop demo_sha (fst fm2) ''file-1'' ''version-1'' ''hello''
          (GetNodes demo_md5 (fm_hashRing (fst fm2)) ''file-1'') [] (snd fm2)) =
     [''node-1'', ''node-2''] \<and>
   fst (SaveMetadata failing_store Map.empty meta1) = Some (StoreError ''unavailable'') \<and>
   fst (UploadFile demo_md5 demo_sha failing_store (fst fm2) ''file-1'' ''version-1'' 1 2 3
          ''a.txt'' ''hello'' ''text/plain'' (snd fm2) Map.empty) =
     Inl (StoreError ''unavailable'') \<and>
   RetrieveFile demo_sha (the (fm_nodes (fst fm2) ''node-1'')) ''file-1'' ''version-1''
     (fst (snd (UploadFile demo_md5 demo_sha failing_store (fst fm2) ''file-1'' ''version-1''
          1 2 3 ''a.txt'' ''hello'' ''text/plain'' (snd fm2) Map.empty))) =
     Inl (PathError ENOENT) \<and>
   RetrieveFile demo_sha (the (fm_nodes (fst fm2) ''node-2'')) ''file-1'' ''version-1''
     (fst (snd (UploadFile demo_md5 demo_sha failing_store (fst fm2) ''file-1'' ''version-1''
          1 2 3 ''a.txt'' ''hello'' ''text/plain'' (snd fm2) Map.empty))) =
     Inl (PathError ENOENT)"
proof -
  have S: "fst (store_loop demo_sha (fst fm2) ''file-1'' ''version-1'' ''hello''
          (GetNodes demo_md5 (fm_hashRing (fst fm2)) ''file-1'') [] (snd fm2)) =
     [''node-1'', ''node-2'']"
    by code_simp
  have h1: "fst (store_loop demo_sha (fst fm2) ''file-1'' ''version-1'' ''hello''
          (GetNodes demo_md5 (fm_hashRing (fst fm2)) ''file-1'') [] (snd fm2)) \<noteq> []"
    by (simp add: S)
  have h2: "SaveMetadata failing_store Map.empty
      (newFileMetadata ''file-1'' ''version-1'' ''a.txt'' ''hello'' ''text/plain''
         (fst (store_loop demo_sha (fst fm2) ''file-1'' ''version-1'' ''hello''
            (GetNodes demo_md5 (fm_hashRing (fst fm2)) ''file-1'') [] (snd fm2))) 1 2 3) =
      (Some (StoreError ''unavailable''), meta1, Map.empty)"
    by (simp add: S failing_store_def mem_store_def meta1_def)
  have h3: "fst (SaveMetadata failing_store Map.empty meta1) = Some (StoreError ''unavailable'')"
    by (simp add: failing_store_def mem_store_def)
  note inst = upload_save_failure_cleanup[OF h1 h2]
  from inst S h3 show ?thesis by simp
qed

text \<open>
  C5. For a record that exists (\<open>GetMetadata\<close> returns it): a non-empty \<open>versionID\<close> that
  matches no version of the record gives ``version not found''; one that matches selects
  the first version with that identifier; the empty \<open>versionID\<close> selects the last element
  of a non-empty version list. For the selected version the result is that of the
  ordered fail-over read \<open>failover_read\<close>: the recorded nodes present in the registry are
  tried in order, the bytes of the first successful \<open>Retrieve\<close> are returned with the
  record, and when every attempt fails the error is ``failed to retrieve from any
  replica'' around the last error observed.
\<close>

theorem download_version_and_failover:
  assumes "GetMetadata store m fileID = Inr fileMeta"
  shows "(versionID \<noteq> '''' \<and>
          filter (\<lambda>v. VersionID v = versionID) (Versions fileMeta) = [] \<longrightarrow>
            DownloadFile sha store fm fileID versionID t m = Inl VersionNotFound) \<and>
         (versionID \<noteq> '''' \<and>
          filter (\<lambda>v. VersionID v = versionID) (Versions fileMeta) \<noteq> [] \<longrightarrow>
            DownloadFile sha store fm fileID versionID t m =
              download_of sha fm fileID
                (hd (filter (\<lambda>v. VersionID v = versionID) (Versions fileMeta))) fileMeta t) \<and>
         (versionID = '''' \<and> Versions fileMeta \<noteq> [] \<longrightarrow>
            DownloadFile sha store fm fileID versionID t m =
              download_of sha fm fileID (last (Versions fileMeta)) fileMeta t)"
proof (intro conjI impI)
  assume "versionID \<noteq> '''' \<and> filter (\<lambda>v. VersionID v = versionID) (Versions fileMeta) = []"
  then show "DownloadFile sha store fm fileID versionID t m = Inl VersionNotFound"
    using assms by (simp add: DownloadFile_def find_version_filter)
next
  assume h: "versionID \<noteq> '''' \<and>
             filter (\<lambda>v. VersionID v = versionID) (Versions fileMeta) \<noteq> []"
  then obtain v vs where f: "filter (\<lambda>v. VersionID v = versionID) (Versions fileMeta) = v # vs"
    by (auto simp: neq_Nil_conv)
  from h f assms show "DownloadFile sha store fm fileID versionID t m =
      download_of sha fm fileID
        (hd (filter (\<lambda>v. VersionID v = versionID) (Versions fileMeta))) fileMeta t"
    by (simp add: DownloadFile_def find_version_filter retrieve_loop_download_of)
next
  assume h: "versionID = '''' \<and> Versions fileMeta \<noteq> []"
  then have "Versions fileMeta ! (length (Versions fileMeta) - 1) = last (Versions fileMeta)"
    by (simp add: last_conv_nth)
  with h assms show "DownloadFile sha store fm fileID versionID t m =
      download_of sha fm fileID (last (Versions fileMeta)) fileMeta t"
    by (simp add: DownloadFile_def retrieve_loop_download_of)
qed

text \<open>
  Witness for C5, on the state after a successful upload to two nodes: an unknown
  version, the version by its identifier, the latest version, and the latest version
  after the first recorded node has left the registry.
\<close>

lemma demo_download_of:
  "GetMetadata mem_store (snd (snd up1)) ''file-1'' = Inr meta1"
  "download_of demo_sha (fst fm2) ''file-1''
     (hd (filter (\<lambda>v. VersionID v = ''version-1'') (Versions meta1))) meta1 (fst (snd up1)) =
   Inr (''hello'', meta1)"
  "download_of demo_sha (fst fm2) ''file-1'' (last (Versions meta1)) meta1 (fst (snd up1)) =
   Inr (''hello'', meta1)"
  "download_of demo_sha (UnregisterNode demo_md5 ''node-1'' (fst fm2)) ''file-1''
     (last (Versions meta1)) meta1 (fst (snd up1)) = Inr (''hello'', meta1)"
  by code_simp+

theorem download_version_and_failover_witness:
  "GetMetadata mem_store (snd (snd up1)) ''file-1'' = Inr meta1 \<and>
   DownloadFile demo_sha mem_store (fst fm2) ''file-1'' ''version-9'' (fst (snd up1))
     (snd (snd up1)) = Inl VersionNotFound \<and>
   DownloadFile demo_sha mem_store (fst fm2) ''file-1'' ''version-1'' (fst (snd up1))
     (snd (snd up1)) = Inr (''hello'', meta1) \<and>
   DownloadFile demo_sha mem_store (fst fm2) ''file-1'' '''' (fst (snd up1))
     (snd (snd up1)) = Inr (''hello'', meta1) \<and>
   DownloadFile demo_sha mem_store (UnregisterNode demo_md5 ''node-1'' (fst fm2)) ''file-1'' ''''
     (fst (snd up1)) (snd (snd up1)) = Inr (''hello'', meta1)"
proof -
  have v: "Versions meta1 \<noteq> []"
    "filter (\<lambda>v. VersionID v = ''version-9'') (Versions meta1) = []"
    "filter (\<lambda>v. VersionID v = ''version-1'') (Versions meta1) \<noteq> []"
    by (simp_all add: meta1_def newFileMetadata_def)
  note h = demo_download_of(1)
  from download_version_and_failover[OF h, of "''version-9''" demo_sha "fst fm2" "fst (snd up1)"]
    download_version_and_failover[OF h, of "''version-1''" demo_sha "fst fm2" "fst (snd up1)"]
    download_version_and_failover[OF h, of "''''" demo_sha "fst fm2" "fst (snd up1)"]
    download_version_and_failover[OF h, of "''''" demo_sha
      "UnregisterNode demo_md5 ''node-1'' (fst fm2)" "fst (snd up1)"]
    h v demo_download_of(2,3,4)
  show ?thesis by simp
qed

text \<open>
  C6. When the ring returns no candidate node for the new file identifier, as it does
  while no node is registered, \<open>UploadFile\<close> returns the error ``no storage nodes
  available'' and the file system and the metadata store are as before the call: no
  store on a node and no save of a record took place.
\<close>

theorem upload_without_nodes:
  assumes "GetNodes md5 (fm_hashRing fm) fileID = []"
  shows "UploadFile md5 sha store fm fileID versionID now1 now2 now3 filename data contentType
           t m = (Inl NoStorageNodes, t, m)"
  using assms by (simp add: UploadFile_def)

text \<open>Witness for C6: a new file manager, with no node registered.\<close>

theorem upload_without_nodes_witness:
  "GetNodes demo_md5 (fm_hashRing (NewFileManager 2)) ''file-1'' = [] \<and>
   UploadFile demo_md5 demo_sha mem_store (NewFileManager 2) ''file-1'' ''version-1'' 1 2 3
       ''a.txt'' ''hello'' ''text/plain'' [] Map.empty =
     (Inl NoStorageNodes, [], Map.empty)"
proof -
  have h: "GetNodes demo_md5 (fm_hashRing (NewFileManager 2)) ''file-1'' = []"
    by (simp add: GetNodes_empty_ring NewFileManager_def NewConsistentHash_def)
  from upload_without_nodes[OF h] h show ?thesis by simp
qed

text \<open>
  C10. \<open>DownloadFile\<close> with the empty \<open>versionID\<close> on a record whose version list is empty
  returns the error ``no versions available''; the last element of the empty list is
  not read.
\<close>

theorem download_no_versions:
  assumes "GetMetadata store m fileID = Inr fileMeta" and "Versions fileMeta = []"
  shows "DownloadFile sha store fm fileID '''' t m = Inl NoVersionsAvailable"
  using assms by (simp add: DownloadFile_def)

text \<open>Witness for C10: a record without versions in the metadata store.\<close>

theorem download_no_versions_witness:
  "GetMetadata mem_store [''file-0'' \<mapsto> meta0] ''file-0'' = Inr meta0 \<and>
   Versions meta0 = [] \<and>
   DownloadFile demo_sha mem_store (fst fm2) ''file-0'' '''' (snd fm2) [''file-0'' \<mapsto> meta0] =
     Inl NoVersionsAvailable"
proof -
  have h1: "GetMetadata mem_store [''file-0'' \<mapsto> meta0] ''file-0'' = Inr meta0"
    by (simp add: mem_store_def)
  have h2: "Versions meta0 = []" by (simp add: meta0_def)
  from download_no_versions[OF h1 h2] h1 h2 show ?thesis by simp
qed

end
